theory Spec2Isabelle
  imports Complex_Main "HOL-Library.Extended_Nat" "HOL-Library.Product_Lexorder"
    "HOL-Library.AList" "HOL-Library.Sublist" "HOL-Library.Multiset" "HOL-Library.Log_Nat"
begin

section \<open>Data model (gui/message\_manager.py)\<close>

text \<open>
  A Python \<open>str\<close> that is sliced or searched by character is a list of Unicode code
  points (\<open>ustr\<close>); identifiers that are only compared (source names, event ids, colours,
  paths) are \<open>string\<close>s. The clock readings (\<open>time.time()\<close>) and \<open>first_displayed_at\<close>
  are \<open>real\<close> numbers of seconds. The field \<open>timestamp\<close>, an argument of the constructor,
  is a Python float (\<open>pyfloat\<close> below). Object identity (\<open>id(msg)\<close>) is the field \<open>oid\<close>;
  identities are never reused by the model.
\<close>

type_synonym ustr = "nat list"

definition ustr_of :: "string \<Rightarrow> ustr" where
  "ustr_of s = map of_char s"

datatype py_error = IndexError

text \<open>\<open>SOURCE_PRIORITY\<close>: the smaller the number, the higher the priority.\<close>

definition SOURCE_PRIORITY :: "(string \<times> int) list" where
  "SOURCE_PRIORITY =
    [(''weatheralarm'', 1),
     (''cenc'', 2), (''ningxia'', 3), (''guangxi'', 4), (''shanxi'', 5), (''beijing'', 6),
     (''cwa'', 7), (''p2pquake'', 8), (''p2pquake_tsunami'', 8), (''hko'', 9), (''usgs'', 10),
     (''emsc'', 11), (''bcsf'', 13), (''gfz'', 14), (''usp'', 15), (''kma'', 16), (''fssn'', 17),
     (''cea'', 0), (''cea-pr'', 0), (''sichuan'', 0), (''cwa-eew'', 0), (''jma'', 0), (''sa'', 0),
     (''kma-eew'', 0),
     (''wolfx_sc_eew'', 0), (''wolfx_jma_eew'', 0), (''wolfx_fj_eew'', 0),
     (''wolfx_cenc_eew'', 0), (''wolfx_cwa_eew'', 0), (''wolfx_all_eew'', 0),
     (''wolfx_cenc_eqlist'', 8), (''wolfx_jma_eqlist'', 8),
     (''nied'', 0),
     (''fanstudio'', 99),
     (''default'', 99)]"

definition get_source_priority :: "string \<Rightarrow> int" where
  "get_source_priority src =
     (case map_of SOURCE_PRIORITY src of Some p \<Rightarrow> p | None \<Rightarrow> 99)"

subsection \<open>Python floats\<close>

text \<open>
  A Python float is an IEEE 754 binary64 number: a finite value, one of the two
  infinities, or NaN. A finite float is modelled by its value, a real number that the
  format represents (as it does the small whole numbers and the powers of two used in
  the examples). The result of an arithmetic operation is the exact result rounded to
  the nearest float, ties to the even significand: \<open>round_half_even\<close> rounds to an
  integer; \<open>binade\<close> is the exponent \<open>e\<close> with \<open>2 ^ e \<le> y < 2 ^ (e + 1)\<close> of a positive
  number, computed from the bit length of its integer part or of the integer part of
  its inverse; \<open>rounded_abs\<close> rounds the magnitude in units of the last place of its
  binade (53 significant bits, exponents from -1022); and \<open>float_round\<close> adds the sign
  and the overflow to infinity from \<open>2 ^ 1024\<close> on. The sign of zero plays no part in
  comparisons and is left out.
\<close>

datatype pyfloat = Fin real | PInf | NInf | NaN

definition round_half_even :: "real \<Rightarrow> int" where
  "round_half_even x =
     (let f = \<lfloor>x\<rfloor>; d = x - of_int f
      in if d < 1 / 2 then f else if d > 1 / 2 then f + 1
         else if even f then f else f + 1)"

definition binade :: "real \<Rightarrow> int" where
  "binade y = (if y \<ge> 1 then bitlen \<lfloor>y\<rfloor> - 1 else - bitlen (\<lceil>1 / y\<rceil> - 1))"

definition rounded_abs :: "real \<Rightarrow> real" where
  "rounded_abs x =
     (let e = max (binade \<bar>x\<bar>) (- 1022);
          ulp = 2 powi (e - 52)
      in of_int (round_half_even (\<bar>x\<bar> / ulp)) * ulp)"

definition float_round :: "real \<Rightarrow> pyfloat" where
  "float_round x =
     (if x = 0 then Fin 0
      else
        (let r = rounded_abs x
         in if r \<ge> 2 ^ 1024 then (if x > 0 then PInf else NInf)
            else Fin (sgn x * r)))"

text \<open>\<open>a - b\<close>, \<open>abs(a)\<close>, \<open>a < b\<close> and \<open>a > b\<close> on floats.\<close>

fun float_sub :: "pyfloat \<Rightarrow> pyfloat \<Rightarrow> pyfloat" where
  "float_sub (Fin a) (Fin b) = float_round (a - b)"
| "float_sub NaN _ = NaN"
| "float_sub _ NaN = NaN"
| "float_sub PInf PInf = NaN"
| "float_sub NInf NInf = NaN"
| "float_sub PInf _ = PInf"
| "float_sub NInf _ = NInf"
| "float_sub _ PInf = NInf"
| "float_sub _ NInf = PInf"

fun float_abs :: "pyfloat \<Rightarrow> pyfloat" where
  "float_abs (Fin a) = Fin \<bar>a\<bar>"
| "float_abs PInf = PInf"
| "float_abs NInf = PInf"
| "float_abs NaN = NaN"

fun float_lt :: "pyfloat \<Rightarrow> pyfloat \<Rightarrow> bool" where
  "float_lt (Fin a) (Fin b) = (a < b)"
| "float_lt NaN _ = False"
| "float_lt _ NaN = False"
| "float_lt NInf NInf = False"
| "float_lt NInf _ = True"
| "float_lt _ NInf = False"
| "float_lt PInf _ = False"
| "float_lt _ PInf = True"

definition float_gt :: "pyfloat \<Rightarrow> pyfloat \<Rightarrow> bool" where
  "float_gt a b = float_lt b a"

subsection \<open>\<open>MessageItem\<close>\<close>

record MessageItem =
  oid :: nat
  "text" :: ustr
  color :: string
  timestamp :: pyfloat
  message_type :: string
  source :: string
  image_path :: "string option"
  event_id :: string
  shock_time :: "string option"
  parsed_data :: "(string \<times> string) list option"
  first_displayed_at :: "real option"

text \<open>Python truthiness of an \<open>Optional[str]\<close>: neither \<open>None\<close> nor the empty string.\<close>

definition truthy :: "string option \<Rightarrow> bool" where
  "truthy v = (case v of None \<Rightarrow> False | Some s \<Rightarrow> s \<noteq> [])"

subsection \<open>\<open>_normalize_warning_text\<close>\<close>

text \<open>
  The character classes of Python's \<open>re\<close> on \<open>str\<close> patterns, from the Unicode database
  of the interpreter (version 14.0.0): \<open>\s\<close> is \<open>str.isspace\<close>, \<open>\d\<close> is the general
  category Nd.
\<close>

definition in_ranges :: "(nat \<times> nat) list \<Rightarrow> nat \<Rightarrow> bool" where
  "in_ranges rs c = list_ex (\<lambda>r. fst r \<le> c \<and> c \<le> snd r) rs"

definition py_isspace :: "nat \<Rightarrow> bool" where
  "py_isspace = in_ranges
     [(9, 13), (28, 32), (133, 133), (160, 160), (5760, 5760), (8192, 8202), (8232, 8233),
      (8239, 8239), (8287, 8287), (12288, 12288)]"

definition py_isdigit :: "nat \<Rightarrow> bool" where
  "py_isdigit = in_ranges
     [(48, 57), (1632, 1641), (1776, 1785), (1984, 1993), (2406, 2415), (2534, 2543),
      (2662, 2671), (2790, 2799), (2918, 2927), (3046, 3055), (3174, 3183), (3302, 3311),
      (3430, 3439), (3558, 3567), (3664, 3673), (3792, 3801), (3872, 3881), (4160, 4169),
      (4240, 4249), (6112, 6121), (6160, 6169), (6470, 6479), (6608, 6617), (6784, 6793),
      (6800, 6809), (6992, 7001), (7088, 7097), (7232, 7241), (7248, 7257), (42528, 42537),
      (43216, 43225), (43264, 43273), (43472, 43481), (43504, 43513), (43600, 43609),
      (44016, 44025), (65296, 65305), (66720, 66729), (68912, 68921), (69734, 69743),
      (69872, 69881), (69942, 69951), (70096, 70105), (70384, 70393), (70736, 70745),
      (70864, 70873), (71248, 71257), (71360, 71369), (71472, 71481), (71904, 71913),
      (72016, 72025), (72784, 72793), (73040, 73049), (73120, 73129), (92768, 92777),
      (92864, 92873), (93008, 93017), (120782, 120831), (123200, 123209), (123632, 123641),
      (125264, 125273), (130032, 130041)]"

text \<open>
  The rest of a match of \<open>\s*\d+\s*\<close> followed by U+62A5, tried just after a U+7B2C:
  the text after the match, or \<open>None\<close>. The three classes are disjoint and contain
  neither delimiter, so the greedy match of the regular expression is the only one.
\<close>

definition match_report_tail :: "ustr \<Rightarrow> ustr option" where
  "match_report_tail cs =
     (let r1 = dropWhile py_isspace cs;
          r2 = dropWhile py_isdigit r1;
          r3 = dropWhile py_isspace r2
      in if takeWhile py_isdigit r1 = [] then None
         else (case r3 of [] \<Rightarrow> None
               | x # rest \<Rightarrow> if x = 25253 then Some rest else None))"

text \<open>\<open>re.sub(r'U+7B2C\s*\d+\s*U+62A5', '', s)\<close>: every leftmost match is deleted.\<close>

function sub_report_number :: "ustr \<Rightarrow> ustr" where
  "sub_report_number [] = []"
| "sub_report_number (c # cs) =
     (case (if c = 31532 then match_report_tail cs else None) of
        Some rest \<Rightarrow> sub_report_number rest
      | None \<Rightarrow> c # sub_report_number cs)"
  by pat_completeness auto
termination
proof (relation "measure length")
  fix c :: nat and cs rest :: ustr
  assume "(if c = 31532 then match_report_tail cs else None) = Some rest"
  then have a: "match_report_tail cs = Some rest"
    by (simp split: if_splits)
  let ?r3 = "dropWhile py_isspace (dropWhile py_isdigit (dropWhile py_isspace cs))"
  from a have "\<exists>x. ?r3 = x # rest"
    by (auto simp: match_report_tail_def Let_def split: if_splits list.splits)
  then have "length rest < length ?r3" by auto
  also have "length ?r3 \<le> length cs"
    by (meson length_dropWhile_le order_trans)
  finally show "(rest, c # cs) \<in> measure length" by simp
qed auto

text \<open>\<open>s.replace(old, '')\<close>: every leftmost occurrence of \<open>old\<close> is deleted.\<close>

function remove_all :: "ustr \<Rightarrow> ustr \<Rightarrow> ustr" where
  "remove_all old [] = []"
| "remove_all old (c # cs) =
     (if old \<noteq> [] \<and> prefix old (c # cs)
      then remove_all old (drop (length old) (c # cs))
      else c # remove_all old cs)"
  by pat_completeness auto
termination
  by (relation "measure (\<lambda>(old, s). length s)") (auto simp: neq_Nil_conv)

definition strip :: "ustr \<Rightarrow> ustr" where
  "strip s = rev (dropWhile py_isspace (rev (dropWhile py_isspace s)))"

definition normalize_warning_text :: "ustr \<Rightarrow> ustr" where
  "normalize_warning_text txt =
     (if txt = [] then []
      else
        let n1 = sub_report_number txt;
            n2 = remove_all [26368, 32456, 25253] n1;
            n3 = remove_all (ustr_of ''Final Report'') n2;
            n4 = remove_all (ustr_of ''final report'') n3;
            n5 = remove_all (ustr_of ''FINAL REPORT'') n4;
            n6 = filter (\<lambda>c. \<not> py_isspace c) n5;
            n7 = remove_all [65292] (remove_all [44] n6);
            n8 = remove_all [46] (remove_all [12290] n7)
        in strip n8)"

subsection \<open>\<open>MessageItem.is_same_event\<close>\<close>

definition is_same_event :: "MessageItem \<Rightarrow> MessageItem \<Rightarrow> bool" where
  "is_same_event self other =
     (if source self \<noteq> source other then False
      else if event_id self \<noteq> [] \<and> event_id other \<noteq> []
        then event_id self = event_id other
      else if event_id self = [] \<and> event_id other = [] then
        (let normalized_self = normalize_warning_text (text self);
             normalized_other = normalize_warning_text (text other)
         in if normalized_self \<noteq> [] \<and> normalized_self = normalized_other then True
            else if truthy (shock_time self) \<and> truthy (shock_time other)
                    \<and> shock_time self = shock_time other then True
            else if normalized_self \<noteq> [] \<and> normalized_other \<noteq> []
                    \<and> float_lt (float_abs (float_sub (timestamp self) (timestamp other)))
                                 (Fin 30)
                    \<and> take 80 normalized_self = take 80 normalized_other then True
            else False)
      else False)"

subsection \<open>\<open>MessageBuffer\<close>\<close>

text \<open>
  The leading underscore of the private attributes is dropped. \<open>max_size\<close> and
  \<open>current_index\<close> are Python integers; \<open>message_add_order\<close> is the dictionary from
  object identities to insertion-order tokens.
\<close>

record MessageBuffer =
  buffer :: "MessageItem list"
  max_size :: int
  current_index :: int
  use_priority :: bool
  add_order_counter :: nat
  message_add_order :: "nat \<rightharpoonup> nat"
  current_displaying_msg_id :: "nat option"

definition MessageBuffer_init :: "int \<Rightarrow> bool \<Rightarrow> MessageBuffer" where
  "MessageBuffer_init ms up =
     \<lparr>buffer = [], max_size = ms, current_index = 0, use_priority = up,
      add_order_counter = 0, message_add_order = Map.empty,
      current_displaying_msg_id = None\<rparr>"

text \<open>\<open>for i, x in enumerate(xs): if P(x): ... break\<close>: the first index where \<open>P\<close> holds.\<close>

fun find_index :: "('a \<Rightarrow> bool) \<Rightarrow> 'a list \<Rightarrow> nat option" where
  "find_index P [] = None"
| "find_index P (x # xs) = (if P x then Some 0 else map_option Suc (find_index P xs))"

text \<open>
  The local function \<open>sort_key\<close> of \<open>_sort_by_priority\<close>: the pair (priority, add order),
  a message without a recorded add order getting \<open>float('inf')\<close>.
\<close>

definition sort_key_of :: "MessageBuffer \<Rightarrow> MessageItem \<Rightarrow> int \<times> enat" where
  "sort_key_of b msg =
     (get_source_priority (source msg),
      case message_add_order b (oid msg) of Some n \<Rightarrow> enat n | None \<Rightarrow> \<infinity>)"

text \<open>
  \<open>_sort_by_priority\<close>. \<open>list.sort\<close> is stable, as is \<open>sort_key\<close>. The current index
  follows the displayed message when that message is in the buffer.
\<close>

definition sort_by_priority :: "MessageBuffer \<Rightarrow> MessageBuffer" where
  "sort_by_priority b =
     (let current_msg = (case current_displaying_msg_id b of
                           None \<Rightarrow> None
                         | Some i \<Rightarrow> find (\<lambda>msg. oid msg = i) (buffer b));
          sorted_buffer = sort_key (sort_key_of b) (buffer b);
          b1 = b\<lparr>buffer := sorted_buffer\<rparr>
      in case (case current_msg of
                 None \<Rightarrow> None
               | Some cm \<Rightarrow> find_index (\<lambda>msg. oid msg = oid cm) sorted_buffer) of
           Some i \<Rightarrow> b1\<lparr>current_index := int i\<rparr>
         | None \<Rightarrow>
             if current_index b \<ge> int (length sorted_buffer) \<or> current_index b < 0
             then b1\<lparr>current_index := 0\<rparr> else b1)"

text \<open>
  The capacity block shared by all insertions: with the buffer at \<open>max_size\<close>,
  \<open>self.buffer.pop(0)\<close> removes index 0 (and raises \<open>IndexError\<close> on an empty list).
\<close>

definition evict_if_full :: "MessageBuffer \<Rightarrow> py_error + MessageBuffer" where
  "evict_if_full b =
     (if int (length (buffer b)) \<ge> max_size b then
        (case buffer b of
           [] \<Rightarrow> Inl IndexError
         | removed_msg # rest \<Rightarrow>
             Inr (b\<lparr>buffer := rest,
                    message_add_order := (message_add_order b)(oid removed_msg := None),
                    current_index := (if current_index b > 0 then current_index b - 1
                                      else current_index b)\<rparr>))
      else Inr b)"

text \<open>The block that records the add order of a new message and appends it.\<close>

definition append_new :: "MessageBuffer \<Rightarrow> MessageItem \<Rightarrow> MessageBuffer" where
  "append_new b message =
     b\<lparr>add_order_counter := add_order_counter b + 1,
       message_add_order := (message_add_order b)(oid message \<mapsto> add_order_counter b + 1),
       buffer := buffer b @ [message]\<rparr>"

text \<open>
  The bookkeeping of a replacement: the new object takes over the add order of the old
  one (assignment first, then \<open>del\<close> of the old key), or gets a fresh one.
\<close>

definition carry_add_order :: "MessageBuffer \<Rightarrow> nat \<Rightarrow> nat \<Rightarrow> MessageBuffer" where
  "carry_add_order b old_msg_id new_msg_id =
     (case message_add_order b old_msg_id of
        Some n \<Rightarrow>
          b\<lparr>message_add_order :=
              ((message_add_order b)(new_msg_id \<mapsto> n))(old_msg_id := None)\<rparr>
      | None \<Rightarrow>
          b\<lparr>add_order_counter := add_order_counter b + 1,
            message_add_order :=
              (message_add_order b)(new_msg_id \<mapsto> add_order_counter b + 1)\<rparr>)"

definition sort_if_priority :: "MessageBuffer \<Rightarrow> MessageBuffer" where
  "sort_if_priority b = (if use_priority b then sort_by_priority b else b)"

definition add :: "MessageBuffer \<Rightarrow> MessageItem \<Rightarrow> py_error + MessageBuffer" where
  "add b message =
     (case evict_if_full b of
        Inl e \<Rightarrow> Inl e
      | Inr b1 \<Rightarrow> Inr (sort_if_priority (append_new b1 message)))"

text \<open>
  \<open>replace_or_add\<close> and \<open>replace_by_source\<close> differ in the test that finds the entry
  to replace; the result is the flag returned and the new buffer.
\<close>

definition replace_where ::
  "(MessageItem \<Rightarrow> bool) \<Rightarrow> MessageBuffer \<Rightarrow> MessageItem \<Rightarrow> py_error + (bool \<times> MessageBuffer)"
where
  "replace_where same b message =
     (case find_index same (buffer b) of
        Some i \<Rightarrow>
          (let b1 = carry_add_order b (oid (buffer b ! i)) (oid message);
               b2 = b1\<lparr>buffer := (buffer b1)[i := message]\<rparr>
           in Inr (True, sort_if_priority b2))
      | None \<Rightarrow>
          (case evict_if_full b of
             Inl e \<Rightarrow> Inl e
           | Inr b1 \<Rightarrow> Inr (False, sort_if_priority (append_new b1 message))))"

definition replace_or_add ::
  "MessageBuffer \<Rightarrow> MessageItem \<Rightarrow> py_error + (bool \<times> MessageBuffer)" where
  "replace_or_add b message = replace_where (\<lambda>existing_msg. is_same_event message existing_msg) b message"

definition replace_by_source ::
  "MessageBuffer \<Rightarrow> MessageItem \<Rightarrow> py_error + (bool \<times> MessageBuffer)" where
  "replace_by_source b message =
     replace_where (\<lambda>existing_msg. source message = source existing_msg) b message"

text \<open>
  \<open>batch_replace_by_source\<close>. First the batch is reduced to one message per source in
  the dictionary \<open>source_to_latest_msg\<close> (keys in order of first appearance; a later
  message of a source wins when its timestamp is strictly greater).
\<close>

definition latest_step ::
  "MessageItem \<Rightarrow> (string \<times> MessageItem) list \<Rightarrow> (string \<times> MessageItem) list" where
  "latest_step message d =
     (case map_of d (source message) of
        Some existing_msg \<Rightarrow>
          if float_gt (timestamp message) (timestamp existing_msg)
          then AList.update (source message) message d else d
      | None \<Rightarrow> AList.update (source message) message d)"

definition source_to_latest_msg :: "MessageItem list \<Rightarrow> (string \<times> MessageItem) list" where
  "source_to_latest_msg messages = fold latest_step messages []"

definition unique_messages :: "MessageItem list \<Rightarrow> MessageItem list" where
  "unique_messages messages = map snd (source_to_latest_msg messages)"

text \<open>
  The body of the loop over the unique messages: replace the first entry of the same
  source (a weather message without image path inherits the path of the entry it
  replaces), or append as a new message. The buffer is not sorted here.
\<close>

definition keep_image_path :: "MessageItem \<Rightarrow> MessageItem \<Rightarrow> MessageItem" where
  "keep_image_path message existing_msg =
     (if message_type message = ''weather'' \<and> \<not> truthy (image_path message)
         \<and> truthy (image_path existing_msg)
      then message\<lparr>image_path := image_path existing_msg\<rparr>
      else message)"

definition brs_step ::
  "MessageBuffer \<Rightarrow> MessageItem \<Rightarrow> py_error + (bool \<times> MessageBuffer)" where
  "brs_step b message =
     (case find_index (\<lambda>existing_msg. source message = source existing_msg) (buffer b) of
        Some i \<Rightarrow>
          (let existing_msg = buffer b ! i;
               b1 = carry_add_order b (oid existing_msg) (oid message)
           in Inr (True, b1\<lparr>buffer := (buffer b1)[i := keep_image_path message existing_msg]\<rparr>))
      | None \<Rightarrow>
          (case evict_if_full b of
             Inl e \<Rightarrow> Inl e
           | Inr b1 \<Rightarrow> Inr (False, append_new b1 message)))"

fun brs_loop ::
  "MessageBuffer \<Rightarrow> MessageItem list \<Rightarrow> py_error + (bool list \<times> MessageBuffer)" where
  "brs_loop b [] = Inr ([], b)"
| "brs_loop b (message # rest) =
     (case brs_step b message of
        Inl e \<Rightarrow> Inl e
      | Inr (r, b1) \<Rightarrow>
          (case brs_loop b1 rest of
             Inl e \<Rightarrow> Inl e
           | Inr (rs, b2) \<Rightarrow> Inr (r # rs, b2)))"

text \<open>
  The result list has one flag per input message, looked up by source; every source of
  the batch is a key of \<open>source_to_result\<close>, so the lookup cannot fail.
\<close>

definition batch_replace_by_source ::
  "MessageBuffer \<Rightarrow> MessageItem list \<Rightarrow> py_error + (bool list \<times> MessageBuffer)" where
  "batch_replace_by_source b messages =
     (let unique = unique_messages messages
      in case brs_loop b unique of
           Inl e \<Rightarrow> Inl e
         | Inr (unique_results, b1) \<Rightarrow>
             (let source_to_result = zip (map source unique) unique_results;
                  results = map (\<lambda>m. case map_of source_to_result (source m) of
                                        Some r \<Rightarrow> r | None \<Rightarrow> False) messages
              in Inr (results, sort_if_priority b1)))"

definition find_by_event_id :: "MessageBuffer \<Rightarrow> string \<Rightarrow> string \<Rightarrow> MessageItem option" where
  "find_by_event_id b eid src = find (\<lambda>msg. event_id msg = eid \<and> source msg = src) (buffer b)"

definition find_by_source :: "MessageBuffer \<Rightarrow> string \<Rightarrow> MessageItem option" where
  "find_by_source b src = find (\<lambda>msg. source msg = src) (buffer b)"

definition remove_by_event_id :: "MessageBuffer \<Rightarrow> string \<Rightarrow> string \<Rightarrow> bool \<times> MessageBuffer" where
  "remove_by_event_id b eid src =
     (case find_index (\<lambda>msg. event_id msg = eid \<and> source msg = src) (buffer b) of
        None \<Rightarrow> (False, b)
      | Some i \<Rightarrow>
          (let removed_msg = buffer b ! i;
               new_buffer = take i (buffer b) @ drop (Suc i) (buffer b);
               b1 = b\<lparr>buffer := new_buffer,
                      message_add_order := (message_add_order b)(oid removed_msg := None)\<rparr>;
               b2 = (if current_index b1 > int i
                     then b1\<lparr>current_index := current_index b1 - 1\<rparr>
                     else if current_index b1 = int i
                     then b1\<lparr>current_index := (if current_index b1 \<ge> int (length new_buffer)
                                                then 0 else current_index b1),
                              current_displaying_msg_id := None\<rparr>
                     else b1)
           in (True, sort_if_priority b2)))"

definition get_current :: "MessageBuffer \<Rightarrow> MessageItem option \<times> MessageBuffer" where
  "get_current b =
     (if buffer b = [] then (None, b\<lparr>current_displaying_msg_id := None\<rparr>)
      else
        case (case current_displaying_msg_id b of
                None \<Rightarrow> None
              | Some i \<Rightarrow> find_index (\<lambda>msg. oid msg = i) (buffer b)) of
          Some i \<Rightarrow> (Some (buffer b ! i), b\<lparr>current_index := int i\<rparr>)
        | None \<Rightarrow>
            (let ci = (if current_index b < 0 \<or> current_index b \<ge> int (length (buffer b))
                       then 0 else current_index b);
                 msg = buffer b ! nat ci
             in (Some msg, b\<lparr>current_index := ci,
                              current_displaying_msg_id := Some (oid msg)\<rparr>)))"

text \<open>
  \<open>_get_next_by_priority\<close>: sort, locate the displayed message by identity (the
  sentinel index \<open>-1\<close> is \<open>None\<close>), and move to the following index, wrapping round.
\<close>

definition get_next_by_priority :: "MessageBuffer \<Rightarrow> MessageItem option \<times> MessageBuffer" where
  "get_next_by_priority b0 =
     (if buffer b0 = [] then (None, b0\<lparr>current_displaying_msg_id := None\<rparr>)
      else
        let b = sort_by_priority b0;
            current_msg_index =
              (case current_displaying_msg_id b of
                 None \<Rightarrow> None
               | Some i \<Rightarrow> find_index (\<lambda>msg. oid msg = i) (buffer b));
            next_index0 = (case current_msg_index of
                             Some i \<Rightarrow> (i + 1) mod length (buffer b)
                           | None \<Rightarrow> 0);
            next_index = (if next_index0 \<ge> length (buffer b) then 0 else next_index0);
            msg = buffer b ! next_index
        in (Some msg, b\<lparr>current_index := int next_index,
                         current_displaying_msg_id := Some (oid msg)\<rparr>))"

definition get_next :: "MessageBuffer \<Rightarrow> MessageItem option \<times> MessageBuffer" where
  "get_next b =
     (if buffer b = [] then (None, b\<lparr>current_displaying_msg_id := None\<rparr>)
      else if \<not> use_priority b then
        (let ci = (current_index b + 1) mod int (length (buffer b));
             msg = buffer b ! nat ci
         in (Some msg, b\<lparr>current_index := ci, current_displaying_msg_id := Some (oid msg)\<rparr>))
      else get_next_by_priority b)"

definition size_of :: "MessageBuffer \<Rightarrow> nat" where
  "size_of b = length (buffer b)"

definition clear :: "MessageBuffer \<Rightarrow> MessageBuffer" where
  "clear b = b\<lparr>buffer := [], current_index := 0, message_add_order := Map.empty,
               add_order_counter := 0, current_displaying_msg_id := None\<rparr>"

text \<open>\<open>get_next\<close> called \<open>n\<close> times in a row: the messages returned, and the final buffer.\<close>

fun get_next_n :: "nat \<Rightarrow> MessageBuffer \<Rightarrow> MessageItem option list \<times> MessageBuffer" where
  "get_next_n 0 b = ([], b)"
| "get_next_n (Suc n) b =
     (let (r, b1) = get_next b; (rs, b2) = get_next_n n b1 in (r # rs, b2))"

section \<open>The display sink (gui/scrolling\_text.py)\<close>

text \<open>
  Of the widget, the model keeps the scrolling flag and what is shown; \<open>calls\<close> is a
  trace of every invocation of \<open>update_text\<close>, in order, with its arguments.
\<close>

record update_call =
  uc_text :: ustr
  uc_color :: string
  uc_image_path :: "string option"
  uc_force :: bool
  uc_message_type :: "string option"
  uc_parsed_data :: "(string \<times> string) list option"

record ScrollingText =
  is_scrolling :: bool
  current_text :: ustr
  current_image_path :: "string option"
  current_message_type :: "string option"
  current_parsed_data :: "(string \<times> string) list option"
  calls :: "update_call list"

definition update_text :: "ScrollingText \<Rightarrow> update_call \<Rightarrow> bool \<times> ScrollingText" where
  "update_text w c =
     (if is_scrolling w \<and> \<not> uc_force c then (False, w\<lparr>calls := calls w @ [c]\<rparr>)
      else (True, w\<lparr>is_scrolling := True,
                      current_text := uc_text c,
                      current_image_path := uc_image_path c,
                      current_message_type := uc_message_type c,
                      current_parsed_data := uc_parsed_data c,
                      calls := calls w @ [c]\<rparr>))"

definition call_of :: "MessageItem \<Rightarrow> bool \<Rightarrow> update_call" where
  "call_of message force =
     \<lparr>uc_text = text message, uc_color = color message, uc_image_path = image_path message,
      uc_force = force, uc_message_type = Some (message_type message),
      uc_parsed_data = parsed_data message\<rparr>"

section \<open>The arbiter (gui/main\_window.py, utils/message\_processor.py)\<close>

text \<open>
  The model covers the arbiter once the widget exists. It leaves out logging, the
  loading indicator and the image cache of the widget, and the handlers that only log:
  apart from the \<open>IndexError\<close> of an insertion into a buffer without capacity, the
  modelled code raises no exception. The callbacks of the source threads and of the
  timers are steps of one sequential machine.
\<close>

text \<open>
  The configuration values read by the arbiter, and its environment: the clocks, and the
  library and formatting functions whose code is outside the arbiter (\<open>strptime\<close> with
  the two display formats, the regular-expression search for a time in a message text,
  the per-type formatters, colour and image lookup). Datetimes are seconds on the real
  line.
\<close>

record MessageConfig =
  warning_shock_validity_seconds :: int
  warning_min_display_seconds :: int
  warning_color :: string
  use_custom_text :: bool
  custom_text :: ustr
  custom_text_color :: string

record event =
  ev_type :: string
  ev_cancel :: bool
  ev_event_id :: string
  ev_shock_time :: string
  ev_source_type :: string
  ev_fields :: "(string \<times> string) list"

record Env =
  time_time :: real
  now_in_display_tz :: real
  strptime_display :: "string \<Rightarrow> real option"
  search_time_in_text :: "ustr \<Rightarrow> string option"
  format_warning_message :: "event \<Rightarrow> ustr option"
  format_report_message :: "event \<Rightarrow> ustr option"
  format_weather_message :: "event \<Rightarrow> ustr option"
  format_generic_message :: "event \<Rightarrow> ustr option"
  get_message_color :: "string \<Rightarrow> event option \<Rightarrow> string"
  get_weather_image_path :: "event \<Rightarrow> string option"

record MainWindow =
  message_queue :: "MessageItem list"
  warning_buffer :: MessageBuffer
  report_buffer :: MessageBuffer
  scrolling_text :: ScrollingText
  current_display_type :: "string option"
  switching_to_report :: bool
  current_displaying_message :: "MessageItem option"
  pending_update_message :: "MessageItem option"
  next_oid :: nat

definition MainWindow_init :: MainWindow where
  "MainWindow_init =
     \<lparr>message_queue = [],
      warning_buffer = MessageBuffer_init 20 True,
      report_buffer = MessageBuffer_init 20 True,
      scrolling_text = \<lparr>is_scrolling = False, current_text = [], current_image_path = None,
                        current_message_type = None, current_parsed_data = None, calls = []\<rparr>,
      current_display_type = None,
      switching_to_report = False,
      current_displaying_message = None,
      pending_update_message = None,
      next_oid = 0\<rparr>"

subsection \<open>Validity of warnings\<close>

definition strip_str :: "string \<Rightarrow> string" where
  "strip_str s = rev (dropWhile (\<lambda>c. py_isspace (of_char c))
                      (rev (dropWhile (\<lambda>c. py_isspace (of_char c)) s)))"

text \<open>\<open>timezone_utils.parse_display_time\<close>.\<close>

definition parse_display_time :: "Env \<Rightarrow> string \<Rightarrow> real option" where
  "parse_display_time env time_str =
     (if time_str = [] \<or> strip_str time_str = [] then None
      else strptime_display env (strip_str time_str))"

text \<open>\<open>MessageProcessor._is_warning_valid\<close>: the check at admission.\<close>

definition is_warning_valid :: "MessageConfig \<Rightarrow> Env \<Rightarrow> event \<Rightarrow> bool" where
  "is_warning_valid cfg env data =
     (if ev_shock_time data = [] then True
      else case parse_display_time env (ev_shock_time data) of
             None \<Rightarrow> True
           | Some shock \<Rightarrow>
               now_in_display_tz env - shock \<le> of_int (warning_shock_validity_seconds cfg))"

text \<open>\<open>MainWindow._is_warning_still_valid\<close>: the check of the expiry sweep.\<close>

definition is_warning_still_valid :: "MessageConfig \<Rightarrow> Env \<Rightarrow> MessageItem \<Rightarrow> bool" where
  "is_warning_still_valid cfg env message =
     (case first_displayed_at message of
        Some shown \<Rightarrow> time_time env - shown < of_int (warning_min_display_seconds cfg)
      | None \<Rightarrow>
          (case (if truthy (shock_time message) then shock_time message
                 else search_time_in_text env (text message)) of
             None \<Rightarrow> True
           | Some shock_time_str \<Rightarrow>
               (case parse_display_time env shock_time_str of
                  None \<Rightarrow> True
                | Some shock \<Rightarrow>
                    now_in_display_tz env - shock
                      \<le> of_int (warning_shock_validity_seconds cfg))))"

text \<open>
  \<open>_clean_expired_warnings\<close>: the expiry sweep of the warning buffer. The flag returned
  says that the sweep emptied the buffer while a warning was displayed.
\<close>

definition clean_expired_warnings ::
  "MessageConfig \<Rightarrow> Env \<Rightarrow> MainWindow \<Rightarrow> bool \<times> MainWindow" where
  "clean_expired_warnings cfg env st =
     (let wb = warning_buffer st;
          valid_messages = filter (is_warning_still_valid cfg env) (buffer wb);
          expired_count = length (buffer wb) - length valid_messages
      in if expired_count > 0 then
           (let wb1 = wb\<lparr>buffer := valid_messages,
                          current_index := (if current_index wb \<ge> int (length valid_messages)
                                            then 0 else current_index wb)\<rparr>
            in (valid_messages = [] \<and> current_display_type st = Some ''warning'',
                st\<lparr>warning_buffer := wb1\<rparr>))
         else (False, st))"

subsection \<open>Mode switches\<close>

text \<open>
  A message object can be referenced from the buffers, the queue and the arbiter at the
  same time; an assignment to one of its attributes is applied to every copy with that
  identity.
\<close>

definition update_object :: "nat \<Rightarrow> (MessageItem \<Rightarrow> MessageItem) \<Rightarrow> MainWindow \<Rightarrow> MainWindow" where
  "update_object i f st =
     (let upd = (\<lambda>m. if oid m = i then f m else m)
      in st\<lparr>message_queue := map upd (message_queue st),
             warning_buffer := (warning_buffer st)\<lparr>buffer := map upd (buffer (warning_buffer st))\<rparr>,
             report_buffer := (report_buffer st)\<lparr>buffer := map upd (buffer (report_buffer st))\<rparr>,
             current_displaying_message := map_option upd (current_displaying_message st),
             pending_update_message := map_option upd (pending_update_message st)\<rparr>)"

definition mark_displayed :: "real \<Rightarrow> MessageItem \<Rightarrow> MessageItem" where
  "mark_displayed now m =
     (if message_type m = ''warning'' \<and> first_displayed_at m = None
      then m\<lparr>first_displayed_at := Some now\<rparr> else m)"

definition switch_to_warning_mode :: "Env \<Rightarrow> MessageItem \<Rightarrow> bool \<Rightarrow> MainWindow \<Rightarrow> MainWindow" where
  "switch_to_warning_mode env message force_interrupt st =
     (let wb = warning_buffer st;
          wb1 = (case find_index (\<lambda>msg. oid msg = oid message \<or> is_same_event msg message)
                        (buffer wb) of
                   Some found_index \<Rightarrow>
                     wb\<lparr>current_index := int found_index,
                        current_displaying_msg_id := Some (oid (buffer wb ! found_index))\<rparr>
                 | None \<Rightarrow> wb\<lparr>current_displaying_msg_id := Some (oid message)\<rparr>);
          (success, w) = update_text (scrolling_text st) (call_of message force_interrupt);
          st1 = st\<lparr>warning_buffer := wb1, scrolling_text := w,
                   current_display_type := Some ''warning''\<rparr>
      in if success then
           update_object (oid message) (mark_displayed (time_time env))
             (st1\<lparr>current_displaying_message := Some message,
                  pending_update_message := None\<rparr>)
         else st1\<lparr>current_displaying_message := Some message\<rparr>)"

definition do_switch_to_report :: "MessageItem \<Rightarrow> MainWindow \<Rightarrow> MainWindow" where
  "do_switch_to_report current_msg st =
     (let scrolling = is_scrolling (scrolling_text st);
          (success, w) = update_text (scrolling_text st) (call_of current_msg (\<not> scrolling));
          st1 = st\<lparr>scrolling_text := w, switching_to_report := False\<rparr>
      in if success then
           st1\<lparr>current_display_type := Some ''report'',
               current_displaying_message := Some current_msg,
               pending_update_message := None\<rparr>
         else st1)"

definition switch_to_report_mode :: "MainWindow \<Rightarrow> MainWindow" where
  "switch_to_report_mode st =
     (if current_display_type st = Some ''warning'' then
        (if switching_to_report st then st
         else if size_of (report_buffer st) > 0 then
           (if \<not> is_scrolling (scrolling_text st) then
              (case buffer (report_buffer st) of
                 [] \<Rightarrow> st\<lparr>switching_to_report := False\<rparr>
               | current_msg # _ \<Rightarrow>
                   do_switch_to_report current_msg
                     (st\<lparr>switching_to_report := True,
                         report_buffer := (report_buffer st)\<lparr>current_index := 0\<rparr>\<rparr>))
            else st)
         else st\<lparr>switching_to_report := False\<rparr>)
      else if switching_to_report st then st
      else st\<lparr>switching_to_report := False\<rparr>)"

definition demote_if_possible :: "MainWindow \<Rightarrow> MainWindow" where
  "demote_if_possible st =
     (if size_of (report_buffer st) > 0 \<and> \<not> switching_to_report st
      then switch_to_report_mode st else st)"

subsection \<open>Admission: \<open>on_message_received\<close>\<close>

text \<open>
  \<open>_show_cancellation_notice\<close>: the prefix is the text of the cancelled message up to and
  including its first U+3011, or the name of the source between U+3010 and the word for
  warning; the notice is shown with \<open>force=True\<close>.
\<close>

definition notice_suffix :: ustr where
  "notice_suffix = [25910, 21040, 21462, 28040, 25253, 65292, 25764, 22238, 24403, 21069,
                    39044, 35686, 20449, 24687]"

definition notice_prefix :: "string \<Rightarrow> MessageItem option \<Rightarrow> ustr" where
  "notice_prefix source_name cancelled_message =
     (case cancelled_message of
        Some m \<Rightarrow>
          if text m \<noteq> [] \<and> 12305 \<in> set (text m)
          then takeWhile (\<lambda>c. c \<noteq> 12305) (text m) @ [12305]
          else [12304] @ ustr_of source_name @ [39044, 35686, 12305]
      | None \<Rightarrow> [12304] @ ustr_of source_name @ [39044, 35686, 12305])"

definition notice_call :: "MessageConfig \<Rightarrow> string \<Rightarrow> MessageItem option \<Rightarrow> update_call" where
  "notice_call cfg source_name cancelled_message =
     \<lparr>uc_text = notice_prefix source_name cancelled_message @ notice_suffix,
      uc_color = warning_color cfg, uc_image_path = None, uc_force = True,
      uc_message_type = Some ''warning'', uc_parsed_data = None\<rparr>"

definition show_cancellation_notice ::
  "MessageConfig \<Rightarrow> string \<Rightarrow> MessageItem option \<Rightarrow> MainWindow \<Rightarrow> MainWindow" where
  "show_cancellation_notice cfg source_name cancelled_message st =
     (let (success, w) = update_text (scrolling_text st)
                           (notice_call cfg source_name cancelled_message)
      in st\<lparr>scrolling_text := w,
             current_displaying_message := None,
             pending_update_message := None,
             current_display_type := Some ''warning''\<rparr>)"

text \<open>The branch of \<open>on_message_received\<close> for a cancel report of source jma.\<close>

definition cancel_jma :: "MessageConfig \<Rightarrow> Env \<Rightarrow> string \<Rightarrow> string \<Rightarrow> MainWindow \<Rightarrow> MainWindow" where
  "cancel_jma cfg env source_name eid st =
     (let current_msg_will_be_removed =
            (case current_displaying_message st of
               Some m \<Rightarrow> source m = ''jma'' \<and> event_id m = eid
             | None \<Rightarrow> False);
          wb = warning_buffer st;
          kept = filter (\<lambda>msg. \<not> (source msg = ''jma'' \<and> event_id msg = eid)) (buffer wb);
          wb1 = wb\<lparr>buffer := kept,
                   current_index := (if current_index wb \<ge> int (length kept) then 0
                                     else current_index wb)\<rparr>;
          st1 = st\<lparr>warning_buffer := wb1\<rparr>
      in if current_msg_will_be_removed then
           (let st2 = show_cancellation_notice cfg source_name (current_displaying_message st1) st1
            in if size_of (warning_buffer st2) = 0 then demote_if_possible st2
               else
                 (let (next_msg, wb2) = get_next (warning_buffer st2);
                      st3 = st2\<lparr>warning_buffer := wb2\<rparr>
                  in case next_msg of
                       None \<Rightarrow> st3
                     | Some nm \<Rightarrow>
                         if \<not> is_scrolling (scrolling_text st3)
                         then switch_to_warning_mode env nm False st3 else st3))
         else st1)"

text \<open>\<open>MessageProcessor.format_message\<close>; a formatter that raises counts as \<open>None\<close>.\<close>

definition format_message :: "MessageConfig \<Rightarrow> Env \<Rightarrow> event \<Rightarrow> ustr option" where
  "format_message cfg env data =
     (if ev_type data = ''warning'' then
        (if ev_source_type data = ''jma'' \<and> ev_cancel data then None
         else if \<not> is_warning_valid cfg env data then None
         else case format_warning_message env data of
                None \<Rightarrow> None
              | Some result \<Rightarrow> if result = [] \<or> strip result = [] then None else Some result)
      else if ev_type data = ''report'' then format_report_message env data
      else if ev_type data = ''weather'' then format_weather_message env data
      else format_generic_message env data)"

text \<open>\<open>MessageQueue.put(item, block=False)\<close> on the arbiter's queue of capacity 100.\<close>

definition queue_put :: "MessageItem list \<Rightarrow> MessageItem \<Rightarrow> bool \<times> MessageItem list" where
  "queue_put q item =
     (if length q \<ge> 100 then (True, tl q @ [item]) else (True, q @ [item]))"

definition on_message_received ::
  "MessageConfig \<Rightarrow> Env \<Rightarrow> string \<Rightarrow> event \<Rightarrow> MainWindow \<Rightarrow> MainWindow" where
  "on_message_received cfg env source_name data st =
     (let mtype = ev_type data
      in if mtype = ''warning'' \<and> source_name = ''jma'' \<and> ev_cancel data then
           (if ev_event_id data \<noteq> [] then cancel_jma cfg env source_name (ev_event_id data) st
            else st)
         else if mtype = ''warning'' \<and> \<not> is_warning_valid cfg env data then st
         else
           (case format_message cfg env data of
              None \<Rightarrow> st
            | Some message \<Rightarrow>
                if message = [] then st
                else
                  (let msg_item =
                         \<lparr>oid = next_oid st,
                          text = message,
                          color = get_message_color env mtype
                                    (if mtype = ''weather'' then Some data else None),
                          timestamp = Fin (time_time env),
                          message_type = mtype,
                          source = source_name,
                          image_path = (if mtype = ''weather''
                                        then get_weather_image_path env data else None),
                          event_id = ev_event_id data,
                          shock_time = (if mtype = ''warning''
                                        then Some (ev_shock_time data) else None),
                          parsed_data = (if mtype = ''weather''
                                         then Some (ev_fields data) else None),
                          first_displayed_at = None\<rparr>;
                       (ok, q) = queue_put (message_queue st) msg_item
                   in st\<lparr>message_queue := q, next_oid := next_oid st + 1\<rparr>)))"

subsection \<open>The processing tick: \<open>process_messages\<close>\<close>

text \<open>
  The block that handles the warnings of a batch. An \<open>IndexError\<close> of the buffer leaves
  the block through the handler of the tick. \<open>sorted(...)[0]\<close> is the first message of
  the batch with the smallest priority number.
\<close>

definition process_warning_messages ::
  "Env \<Rightarrow> MessageItem list \<Rightarrow> MainWindow \<Rightarrow> py_error + MainWindow" where
  "process_warning_messages env warning_messages st =
     (case batch_replace_by_source (warning_buffer st) warning_messages of
        Inl e \<Rightarrow> Inl e
      | Inr (results, wb1) \<Rightarrow>
          (let st1 = st\<lparr>warning_buffer := wb1\<rparr>
           in if current_display_type st = Some ''report'' \<or> current_display_type st = None then
                (case sort_key (\<lambda>m. get_source_priority (source m)) warning_messages of
                   [] \<Rightarrow> Inr st1
                 | first_warning # _ \<Rightarrow> Inr (switch_to_warning_mode env first_warning True st1))
              else
                (let need_switch =
                       (case current_displaying_message st1 of
                          None \<Rightarrow> True
                        | Some current_warning \<Rightarrow>
                            message_type current_warning \<noteq> ''warning'' \<or>
                            list_ex (\<lambda>msg. \<not> is_same_event msg current_warning) warning_messages)
                 in if need_switch then
                      (case buffer (warning_buffer st1) of
                         [] \<Rightarrow> Inr st1
                       | first_warning # _ \<Rightarrow>
                           if \<not> is_scrolling (scrolling_text st1)
                           then Inr ((switch_to_warning_mode env first_warning False st1)
                                       \<lparr>current_display_type := Some ''warning''\<rparr>)
                           else Inr st1)
                    else Inr st1)))"

text \<open>
  The block for weather alerts and reports. The loop over the update results stages the
  replacement of the message on display; the flag returned says that
  \<open>_switch_to_report_mode\<close> has been scheduled on a timer.
\<close>

fun stage_pending :: "(MessageItem \<times> bool) list \<Rightarrow> MainWindow \<Rightarrow> MainWindow" where
  "stage_pending [] st = st"
| "stage_pending ((msg, updated) # rest) st =
     stage_pending rest
       (if updated \<and> (case current_displaying_message st of
                          Some cur \<Rightarrow> source cur = source msg | None \<Rightarrow> False)
        then (case find_by_source (report_buffer st) (source msg) of
                Some updated_msg \<Rightarrow> st\<lparr>pending_update_message := Some updated_msg\<rparr>
              | None \<Rightarrow> st)
        else st)"

definition process_report_messages ::
  "MessageItem list \<Rightarrow> bool \<Rightarrow> MainWindow \<Rightarrow> py_error + (bool \<times> MainWindow)" where
  "process_report_messages all_messages no_warnings st =
     (let scrolling = is_scrolling (scrolling_text st)
      in case batch_replace_by_source (report_buffer st) all_messages of
           Inl e \<Rightarrow> Inl e
         | Inr (update_results, rb1) \<Rightarrow>
             Inr (no_warnings \<and> \<not> scrolling,
                  stage_pending (zip all_messages update_results) (st\<lparr>report_buffer := rb1\<rparr>)))"

text \<open>
  One tick: up to five messages are taken from the queue and classified. An exception
  ends the tick in its handler, with the effects so far kept.
\<close>

definition process_messages :: "MessageConfig \<Rightarrow> Env \<Rightarrow> MainWindow \<Rightarrow> bool \<times> MainWindow" where
  "process_messages cfg env st =
     (let new_messages = take 5 (message_queue st);
          st0 = st\<lparr>message_queue := drop 5 (message_queue st)\<rparr>;
          warning_messages = filter (\<lambda>m. message_type m = ''warning'') new_messages;
          weather_messages = filter (\<lambda>m. message_type m = ''weather'') new_messages;
          report_messages = filter (\<lambda>m. message_type m \<noteq> ''warning''
                                          \<and> message_type m \<noteq> ''weather'') new_messages
      in case (if warning_messages \<noteq> [] then process_warning_messages env warning_messages st0
               else Inr st0) of
           Inl e \<Rightarrow> (False, st0)
         | Inr st1 \<Rightarrow>
             if (weather_messages \<noteq> [] \<or> report_messages \<noteq> []) \<and> \<not> use_custom_text cfg then
               (case process_report_messages (weather_messages @ report_messages)
                       (warning_messages = []) st1 of
                  Inl e \<Rightarrow> (False, st1)
                | Inr r \<Rightarrow> r)
             else (False, st1))"

subsection \<open>\<open>_on_scroll_completed\<close>\<close>

definition show_next_warning :: "Env \<Rightarrow> MessageItem \<Rightarrow> MainWindow \<Rightarrow> MainWindow" where
  "show_next_warning env next_msg st =
     (let (success, w) = update_text (scrolling_text st) (call_of next_msg False);
          st1 = st\<lparr>scrolling_text := w\<rparr>
      in if success then
           update_object (oid next_msg) (mark_displayed (time_time env))
             (st1\<lparr>current_display_type := Some ''warning'',
                  current_displaying_message := Some next_msg,
                  pending_update_message := None\<rparr>)
         else st1)"

definition show_next_report :: "MainWindow \<Rightarrow> MainWindow" where
  "show_next_report st =
     (let rb = report_buffer st;
          (next_msg, st1) =
            (case pending_update_message st of
               Some pending \<Rightarrow>
                 (case find_index (\<lambda>msg. source msg = source pending) (buffer rb) of
                    Some i \<Rightarrow>
                      (Some (buffer rb ! i),
                       st\<lparr>pending_update_message := None,
                          report_buffer :=
                            rb\<lparr>current_index := int i,
                               current_displaying_msg_id := Some (oid (buffer rb ! i))\<rparr>\<rparr>)
                  | None \<Rightarrow> (Some pending, st\<lparr>pending_update_message := None\<rparr>))
             | None \<Rightarrow>
                 (let (r, rb1) = get_next rb in (r, st\<lparr>report_buffer := rb1\<rparr>)))
      in case next_msg of
           None \<Rightarrow> st1
         | Some nm \<Rightarrow>
             (let (success, w) = update_text (scrolling_text st1) (call_of nm False);
                  st2 = st1\<lparr>scrolling_text := w\<rparr>
              in if success then
                   st2\<lparr>current_display_type := Some ''report'',
                       current_displaying_message := Some nm\<rparr>
                 else st2))"

text \<open>The last block of the handler: a warning on display with an empty warning buffer.\<close>

definition scroll_tail :: "MainWindow \<Rightarrow> MainWindow" where
  "scroll_tail st =
     (if current_display_type st = Some ''warning'' \<and> size_of (warning_buffer st) = 0
      then demote_if_possible st else st)"

definition on_scroll_completed :: "MessageConfig \<Rightarrow> Env \<Rightarrow> MainWindow \<Rightarrow> MainWindow" where
  "on_scroll_completed cfg env st =
     (if size_of (warning_buffer st) > 0 then
        (let st1 = snd (clean_expired_warnings cfg env st)
         in if size_of (warning_buffer st1) = 0 then demote_if_possible st1
            else
              (let (next_msg, wb2) = get_next (warning_buffer st1);
                   st2 = st1\<lparr>warning_buffer := wb2\<rparr>
               in case next_msg of
                    None \<Rightarrow> scroll_tail st2
                  | Some nm \<Rightarrow>
                      if \<not> is_warning_still_valid cfg env nm then
                        (let wb3 = (warning_buffer st2)
                                     \<lparr>buffer := filter (\<lambda>msg. \<not> is_same_event msg nm)
                                                  (buffer (warning_buffer st2)),
                                      current_index := 0\<rparr>;
                             st4 = snd (clean_expired_warnings cfg env (st2\<lparr>warning_buffer := wb3\<rparr>))
                         in if size_of (warning_buffer st4) = 0 then demote_if_possible st4
                            else
                              (let (next_msg2, wb5) = get_next (warning_buffer st4);
                                   st5 = st4\<lparr>warning_buffer := wb5\<rparr>
                               in case next_msg2 of
                                    None \<Rightarrow> demote_if_possible st5
                                  | Some nm2 \<Rightarrow>
                                      if \<not> is_warning_still_valid cfg env nm2
                                      then demote_if_possible st5
                                      else scroll_tail (show_next_warning env nm2 st5)))
                      else scroll_tail (show_next_warning env nm st2)))
      else if size_of (report_buffer st) > 0 then scroll_tail (show_next_report st)
      else scroll_tail st)"

text \<open>
  The widget ends a scroll by clearing its flag and emitting \<open>scroll_completed\<close>, which
  runs the handler.
\<close>

definition scroll_completed :: "MessageConfig \<Rightarrow> Env \<Rightarrow> MainWindow \<Rightarrow> MainWindow" where
  "scroll_completed cfg env st =
     on_scroll_completed cfg env
       (st\<lparr>scrolling_text := (scrolling_text st)\<lparr>is_scrolling := False\<rparr>\<rparr>)"

subsection \<open>Start-up, late image paths and configuration changes\<close>

text \<open>
  \<open>_delayed_startup\<close> in custom text mode puts one synthetic message into the report
  buffer.
\<close>

definition default_custom_text :: ustr where
  "default_custom_text = [31995, 32479, 36816, 34892, 20013, 65292, 31561, 24453, 26368,
                          26032, 22320, 38663, 20449, 24687, 46, 46, 46]"

definition delayed_startup :: "MessageConfig \<Rightarrow> Env \<Rightarrow> MainWindow \<Rightarrow> MainWindow" where
  "delayed_startup cfg env st =
     (if use_custom_text cfg then
        (let custom_msg =
               \<lparr>oid = next_oid st,
                text = (if custom_text cfg = [] then default_custom_text else custom_text cfg),
                color = (if custom_text_color cfg = [] then ''#01FF00''
                         else custom_text_color cfg),
                timestamp = Fin (time_time env),
                message_type = ''custom_text'',
                source = ''__custom_text__'',
                image_path = None, event_id = [], shock_time = None,
                parsed_data = None, first_displayed_at = None\<rparr>
         in case add (report_buffer st) custom_msg of
              Inl e \<Rightarrow> st\<lparr>next_oid := next_oid st + 1\<rparr>
            | Inr rb \<Rightarrow> st\<lparr>report_buffer := rb, next_oid := next_oid st + 1\<rparr>)
      else st)"

text \<open>
  \<open>_update_message_image_path\<close>: an image path found later is stored in the message and
  in the first report entry of its source and type; \<open>cached\<close> says that the widget
  found the image in its cache, in which case the function returns early.
\<close>

definition update_message_image_path ::
  "bool \<Rightarrow> MessageItem \<Rightarrow> string \<Rightarrow> MainWindow \<Rightarrow> MainWindow" where
  "update_message_image_path cached message path st =
     (let set_path = (\<lambda>m. m\<lparr>image_path := Some path\<rparr>);
          st1 = update_object (oid message) set_path st;
          displayed = (case current_displaying_message st1 of
                         Some cur \<Rightarrow> source cur = source message
                                      \<and> message_type cur = message_type message
                       | None \<Rightarrow> False);
          st2 = (if displayed
                 then st1\<lparr>scrolling_text := (scrolling_text st1)\<lparr>current_image_path := Some path\<rparr>\<rparr>
                 else st1)
      in if displayed \<and> path \<noteq> [] \<and> cached then st2
         else (case find (\<lambda>msg. source msg = source message
                                  \<and> message_type msg = message_type message)
                      (buffer (report_buffer st2)) of
                 Some msg \<Rightarrow> update_object (oid msg) set_path st2
               | None \<Rightarrow> st2))"

text \<open>The part of \<open>_on_config_changed\<close> that touches the buffers: the custom text.\<close>

definition on_config_changed :: "MessageConfig \<Rightarrow> MainWindow \<Rightarrow> MainWindow" where
  "on_config_changed cfg st =
     (if use_custom_text cfg then
        (let custom_color = (if custom_text_color cfg = [] then ''#01FF00''
                             else custom_text_color cfg);
             retext = (\<lambda>m. m\<lparr>text := custom_text cfg, color := custom_color\<rparr>);
             st1 = (case find (\<lambda>msg. source msg = ''__custom_text__'')
                          (buffer (report_buffer st)) of
                      Some msg \<Rightarrow> update_object (oid msg) retext st
                    | None \<Rightarrow> st)
         in case current_displaying_message st1 of
              None \<Rightarrow> st1
            | Some cur \<Rightarrow>
                if source cur = ''__custom_text__'' then
                  (let (success, w) = update_text (scrolling_text st1)
                         \<lparr>uc_text = custom_text cfg, uc_color = custom_color,
                          uc_image_path = None, uc_force = True,
                          uc_message_type = Some ''custom_text'', uc_parsed_data = None\<rparr>
                   in update_object (oid cur) retext (st1\<lparr>scrolling_text := w\<rparr>))
                else st1)
      else st)"

subsection \<open>Reachable states of the arbiter\<close>

text \<open>
  The states the arbiter can be in: after start-up, any sequence of received events,
  processing ticks, completed scrolls, timer calls of \<open>_switch_to_report_mode\<close>, late
  image paths and configuration changes, at any times and under any configuration.
\<close>

inductive reachable :: "MainWindow \<Rightarrow> bool" where
  start: "reachable (delayed_startup cfg env MainWindow_init)"
| received: "reachable st \<Longrightarrow> reachable (on_message_received cfg env source_name data st)"
| tick: "reachable st \<Longrightarrow> reachable (snd (process_messages cfg env st))"
| scrolled: "reachable st \<Longrightarrow> reachable (scroll_completed cfg env st)"
| timer: "reachable st \<Longrightarrow> reachable (switch_to_report_mode st)"
| image: "reachable st \<Longrightarrow> reachable (update_message_image_path cached message path st)"
| config: "reachable st \<Longrightarrow> reachable (on_config_changed cfg st)"

section \<open>The specification's identity rule, and example inputs\<close>

text \<open>
  The identity rule as the specification words it: same source, and either both event
  ids present and equal, or both absent with matching normalized text and timestamps
  less than 30 seconds apart. Two timestamps are less than \<open>d\<close> seconds apart when both
  are finite and their difference as real numbers is below \<open>d\<close> in absolute value.
\<close>

fun seconds_apart_less :: "pyfloat \<Rightarrow> pyfloat \<Rightarrow> real \<Rightarrow> bool" where
  "seconds_apart_less (Fin s) (Fin t) d = (\<bar>s - t\<bar> < d)"
| "seconds_apart_less _ _ d = False"

definition is_same_event_spec :: "MessageItem \<Rightarrow> MessageItem \<Rightarrow> bool" where
  "is_same_event_spec a b =
     (source a = source b \<and>
      ((event_id a \<noteq> [] \<and> event_id b \<noteq> [] \<and> event_id a = event_id b) \<or>
       (event_id a = [] \<and> event_id b = [] \<and>
        normalize_warning_text (text a) = normalize_warning_text (text b) \<and>
        seconds_apart_less (timestamp a) (timestamp b) 30)))"

text \<open>
  The dataclass constructor with a finite timestamp and the optional fields left at
  their defaults.
\<close>

definition new_item :: "nat \<Rightarrow> ustr \<Rightarrow> real \<Rightarrow> string \<Rightarrow> string \<Rightarrow> string \<Rightarrow> MessageItem" where
  "new_item i txt ts mtype src eid =
     \<lparr>oid = i, text = txt, color = ''#FFFFFF'', timestamp = Fin ts, message_type = mtype,
      source = src, image_path = None, event_id = eid, shock_time = None,
      parsed_data = None, first_displayed_at = None\<rparr>"

text \<open>
  The default configuration, and an environment in which both clocks read \<open>now\<close>, the
  time string \<open>T0\<close> parses to second 0 and the formatters return one-letter texts.
\<close>

definition cfg0 :: MessageConfig where
  "cfg0 = \<lparr>warning_shock_validity_seconds = 300, warning_min_display_seconds = 300,
           warning_color = ''#FF0000'', use_custom_text = False,
           custom_text = [], custom_text_color = ''#01FF00''\<rparr>"

definition env_at :: "real \<Rightarrow> Env" where
  "env_at now =
     \<lparr>time_time = now, now_in_display_tz = now,
      strptime_display = (\<lambda>s. if s = ''T0'' then Some 0 else None),
      search_time_in_text = (\<lambda>t. None),
      format_warning_message = (\<lambda>e. Some [87]),
      format_report_message = (\<lambda>e. Some [82]),
      format_weather_message = (\<lambda>e. Some [81]),
      format_generic_message = (\<lambda>e. Some [71]),
      get_message_color = (\<lambda>t e. ''#FFFFFF''),
      get_weather_image_path = (\<lambda>e. None)\<rparr>"

text \<open>
  A warning of source sa with shock time \<open>T0\<close>, first displayed at second 60, alone in
  the warning buffer.
\<close>

definition shown_warning :: MessageItem where
  "shown_warning = (new_item 1 [87] 50 ''warning'' ''sa'' ''E1'')
                     \<lparr>shock_time := Some ''T0'', first_displayed_at := Some 60\<rparr>"

definition st_shown :: MainWindow where
  "st_shown = MainWindow_init
     \<lparr>warning_buffer := (MessageBuffer_init 20 True)\<lparr>buffer := [shown_warning]\<rparr>,
      current_display_type := Some ''warning''\<rparr>"

section \<open>Notions used in the statements\<close>

text \<open>The sources of a buffer in order, and the rule of one message per source.\<close>

definition srcs :: "MessageBuffer \<Rightarrow> string list" where
  "srcs b = map source (buffer b)"

definition one_per_source :: "MessageBuffer \<Rightarrow> bool" where
  "one_per_source b = distinct (srcs b)"

definition arbiter_inv :: "MainWindow \<Rightarrow> bool" where
  "arbiter_inv st = (one_per_source (warning_buffer st) \<and> one_per_source (report_buffer st))"

text \<open>
  The entries of a buffer by identity, source and event id; \<open>no_insert b b'\<close> says that
  \<open>b'\<close> holds no entry that \<open>b\<close> does not hold, and \<open>quiet\<close> says so of both buffers
  of the arbiter.
\<close>

definition idents :: "MessageBuffer \<Rightarrow> (nat \<times> string \<times> string) list" where
  "idents b = map (\<lambda>m. (oid m, source m, event_id m)) (buffer b)"

definition no_insert :: "MessageBuffer \<Rightarrow> MessageBuffer \<Rightarrow> bool" where
  "no_insert b b' = (mset (idents b') \<subseteq># mset (idents b))"

definition quiet :: "MainWindow \<Rightarrow> MainWindow \<Rightarrow> bool" where
  "quiet st st' =
     (no_insert (warning_buffer st) (warning_buffer st') \<and>
      no_insert (report_buffer st) (report_buffer st'))"

text \<open>
  The index in the sorted buffer that the next \<open>get_next\<close> returns: the one after the
  displayed message, or 0 when that message is not in the buffer.
\<close>

definition start_index :: "MessageBuffer \<Rightarrow> nat" where
  "start_index b =
     (let s = sort_key (sort_key_of b) (buffer b)
      in case (case current_displaying_msg_id b of
                 None \<Rightarrow> None
               | Some i \<Rightarrow> find_index (\<lambda>msg. oid msg = i) s) of
           Some j \<Rightarrow> (j + 1) mod length s
         | None \<Rightarrow> 0)"

subsection \<open>More example inputs\<close>

text \<open>
  Scenario B: reports of usgs, cenc and weatheralarm, arrived in that order, in a sorted
  report buffer whose displayed message is \<open>cur\<close>; and a later report of cenc.
\<close>

definition rep_w :: MessageItem where
  "rep_w = new_item 1 [81] 3 ''weather'' ''weatheralarm'' []"

definition rep_c :: MessageItem where
  "rep_c = new_item 2 [82] 2 ''report'' ''cenc'' ''c1''"

definition rep_u :: MessageItem where
  "rep_u = new_item 3 [83] 1 ''report'' ''usgs'' ''u1''"

definition rep_c2 :: MessageItem where
  "rep_c2 = new_item 9 [84] 7 ''report'' ''cenc'' ''c2''"

definition rr_buffer :: "nat option \<Rightarrow> MessageBuffer" where
  "rr_buffer cur =
     \<lparr>buffer = [rep_w, rep_c, rep_u], max_size = 20, current_index = 0, use_priority = True,
      add_order_counter = 3, message_add_order = [3 \<mapsto> 1, 2 \<mapsto> 2, 1 \<mapsto> 3],
      current_displaying_msg_id = cur\<rparr>"

text \<open>A weather alert with an image in the buffer, and its update without one.\<close>

definition wx_old :: MessageItem where
  "wx_old = (new_item 1 [81] 0 ''weather'' ''weatheralarm'' [])\<lparr>image_path := Some ''rain.png''\<rparr>"

definition wx_new :: MessageItem where
  "wx_new = new_item 2 [82] 5 ''weather'' ''weatheralarm'' []"

definition wx_buffer :: MessageBuffer where
  "wx_buffer = (MessageBuffer_init 20 True)
     \<lparr>buffer := [wx_old], add_order_counter := 1, message_add_order := [1 \<mapsto> 1]\<rparr>"

text \<open>A warning event of source sa with event id E1 and shock time \<open>T0\<close>.\<close>

definition ev_sa :: event where
  "ev_sa = \<lparr>ev_type = ''warning'', ev_cancel = False, ev_event_id = ''E1'',
            ev_shock_time = ''T0'', ev_source_type = ''sa'', ev_fields = []\<rparr>"

text \<open>
  Scenario A and the cancellation scenario: warnings of jma (its text opening with an
  organization prefix in brackets) and of cenc; a report on display, mid-scroll, with
  the two warnings queued; the jma warning on display with the warning of sa behind
  it; the warning of sa on display; cancel reports of jma and of sa.
\<close>

definition w_jma :: MessageItem where
  "w_jma = (new_item 10 [12304, 74, 77, 65, 12305, 88] 100 ''warning'' ''jma'' ''J1'')
             \<lparr>shock_time := Some ''T0''\<rparr>"

definition w_cenc :: MessageItem where
  "w_cenc = (new_item 11 [67] 101 ''warning'' ''cenc'' ''C1'')\<lparr>shock_time := Some ''T0''\<rparr>"

definition st_report_scrolling :: MainWindow where
  "st_report_scrolling = MainWindow_init
     \<lparr>message_queue := [w_jma, w_cenc],
      report_buffer := rr_buffer (Some 2),
      scrolling_text := (scrolling_text MainWindow_init)\<lparr>is_scrolling := True, current_text := [82]\<rparr>,
      current_display_type := Some ''report'',
      current_displaying_message := Some rep_c,
      next_oid := 12\<rparr>"

text \<open>
  The same report on display with two warnings of jma queued, the second one a later
  update of the same event.
\<close>

definition w_jma_2 :: MessageItem where
  "w_jma_2 = (new_item 12 [12304, 74, 77, 65, 12305, 89] 102 ''warning'' ''jma'' ''J1'')
               \<lparr>shock_time := Some ''T0''\<rparr>"

definition st_two_jma :: MainWindow where
  "st_two_jma = st_report_scrolling\<lparr>message_queue := [w_jma, w_jma_2], next_oid := 13\<rparr>"

definition ev_jma_cancel :: event where
  "ev_jma_cancel = \<lparr>ev_type = ''warning'', ev_cancel = True, ev_event_id = ''J1'',
                    ev_shock_time = ''T0'', ev_source_type = ''jma'', ev_fields = []\<rparr>"

definition st_jma_shown :: MainWindow where
  "st_jma_shown = MainWindow_init
     \<lparr>warning_buffer := (MessageBuffer_init 20 True)
        \<lparr>buffer := [w_jma, shown_warning], add_order_counter := 2,
         message_add_order := [10 \<mapsto> 1, 1 \<mapsto> 2], current_displaying_msg_id := Some 10\<rparr>,
      scrolling_text := (scrolling_text MainWindow_init)
        \<lparr>is_scrolling := True, current_text := text w_jma\<rparr>,
      current_display_type := Some ''warning'',
      current_displaying_message := Some w_jma,
      next_oid := 12\<rparr>"





text \<open>
  A priority buffer of capacity 2 that receives a report of cenc, then a weather alert,
  then a report of usgs: its states after the first, the second and the third arrival.
\<close>

definition one_report :: MessageBuffer where
  "one_report =
     \<lparr>buffer = [rep_c], max_size = 2, current_index = 0, use_priority = True,
      add_order_counter = 1, message_add_order = [2 \<mapsto> 1],
      current_displaying_msg_id = None\<rparr>"

definition full_buffer :: MessageBuffer where
  "full_buffer =
     \<lparr>buffer = [rep_w, rep_c], max_size = 2, current_index = 0, use_priority = True,
      add_order_counter = 2, message_add_order = [2 \<mapsto> 1, 1 \<mapsto> 2],
      current_displaying_msg_id = None\<rparr>"

definition after_overflow :: MessageBuffer where
  "after_overflow =
     \<lparr>buffer = [rep_c, rep_u], max_size = 2, current_index = 0, use_priority = True,
      add_order_counter = 3, message_add_order = [2 \<mapsto> 1, 3 \<mapsto> 3],
      current_displaying_msg_id = None\<rparr>"

text \<open>
  The warning of sa on display, alone in the warning buffer, while the report buffer
  of scenario B waits with cenc as the report shown last; and the state after the
  scroll that completes 300 seconds after the first display of the warning.
\<close>

definition st_expiring :: MainWindow where
  "st_expiring = MainWindow_init
     \<lparr>warning_buffer := (MessageBuffer_init 20 True)
        \<lparr>buffer := [shown_warning], add_order_counter := 1,
         message_add_order := [1 \<mapsto> 1], current_displaying_msg_id := Some 1\<rparr>,
      report_buffer := rr_buffer (Some 2),
      scrolling_text := (scrolling_text MainWindow_init)
        \<lparr>is_scrolling := True, current_text := text shown_warning\<rparr>,
      current_display_type := Some ''warning'',
      current_displaying_message := Some shown_warning,
      next_oid := 12\<rparr>"

definition st_demoted :: MainWindow where
  "st_demoted = scroll_completed cfg0 (env_at 360) st_expiring"

section \<open>Verified properties\<close>

lemmas rr_defs = rr_buffer_def rep_w_def rep_c_def rep_u_def new_item_def

lemma prio [simp]:
  "get_source_priority ''weatheralarm'' = 1"
  "get_source_priority ''cenc'' = 2"
  "get_source_priority ''usgs'' = 10"
  "get_source_priority ''jma'' = 0"
  "get_source_priority ''sa'' = 0"
  by (simp_all add: get_source_priority_def SOURCE_PRIORITY_def)

subsection \<open>Event identity\<close>

lemma normalize_AB: "normalize_warning_text [65, 66] = [65, 66]"
  by (simp add: normalize_warning_text_def py_isspace_def in_ranges_def strip_def ustr_of_def)

text \<open>
  The float comparison of \<open>is_same_event\<close> in exact terms. The floats just below 30 are
  \<open>2 ^ - 48\<close> apart, so a difference rounds to a float below 30 exactly when it is below
  the midpoint \<open>30 - 2 ^ - 49\<close> (the tie at the midpoint goes to 30, whose significand is
  even).
\<close>

lemma round_half_even_bounds:
  "of_int (round_half_even t) \<le> t + 1" "t - 1 \<le> of_int (round_half_even t)"
  unfolding round_half_even_def Let_def by (auto; linarith)+

lemma round_half_even_less_even:
  assumes "even N"
  shows "round_half_even t < N \<longleftrightarrow> t < of_int N - 1 / 2"
proof
  assume a: "round_half_even t < N"
  show "t < of_int N - 1 / 2"
  proof (rule ccontr)
    assume "\<not> t < of_int N - 1 / 2"
    then have t: "of_int N - 1 / 2 \<le> t" by simp
    then have f: "N - 1 \<le> \<lfloor>t\<rfloor>" by linarith
    show False
    proof (cases "\<lfloor>t\<rfloor> = N - 1")
      case True
      then have d: "t - of_int \<lfloor>t\<rfloor> \<ge> 1 / 2" using t by simp
      have "odd \<lfloor>t\<rfloor>" using True assms by simp
      then have "round_half_even t = N" using d True
        by (auto simp: round_half_even_def Let_def)
      with a show False by simp
    next
      case False
      then have "N \<le> \<lfloor>t\<rfloor>" using f by simp
      moreover have "\<lfloor>t\<rfloor> \<le> round_half_even t"
        by (auto simp: round_half_even_def Let_def)
      ultimately show False using a by simp
    qed
  qed
next
  assume t: "t < of_int N - 1 / 2"
  then have f: "\<lfloor>t\<rfloor> \<le> N - 1" by linarith
  show "round_half_even t < N"
  proof (cases "\<lfloor>t\<rfloor> = N - 1")
    case True
    then have "t - of_int \<lfloor>t\<rfloor> < 1 / 2" using t by simp
    then have "round_half_even t = \<lfloor>t\<rfloor>" by (simp add: round_half_even_def Let_def)
    with True show ?thesis by simp
  next
    case False
    then have "\<lfloor>t\<rfloor> \<le> N - 2" using f by simp
    moreover have "round_half_even t \<le> \<lfloor>t\<rfloor> + 1"
      by (auto simp: round_half_even_def Let_def)
    ultimately show ?thesis by simp
  qed
qed

lemma floor_log2_bounds:
  assumes "0 < y"
  shows "2 powi \<lfloor>log 2 y\<rfloor> \<le> y" "y < 2 powi (\<lfloor>log 2 y\<rfloor> + 1)"
proof -
  have h: "(2::real) powr (real_of_int k + 1) = 2 powi (k + 1)" for k
    using powr_real_of_int' [of 2 "k + 1"] by simp
  show "2 powi \<lfloor>log 2 y\<rfloor> \<le> y" "y < 2 powi (\<lfloor>log 2 y\<rfloor> + 1)"
    using floor_log_eq_powr_iff [of y 2 "\<lfloor>log 2 y\<rfloor>"] assms
    by (simp_all add: powr_real_of_int' h)
qed

lemma floor_log2_eq:
  assumes "2 powi k \<le> y" "y < 2 powi (k + 1)"
  shows "\<lfloor>log 2 y\<rfloor> = k"
proof -
  have h: "(2::real) powr (real_of_int k + 1) = 2 powi (k + 1)"
    using powr_real_of_int' [of 2 "k + 1"] by simp
  have "0 < (2::real) powi k" by simp
  then have "0 < y" using assms(1) by linarith
  then show ?thesis
    using floor_log_eq_powr_iff [of y 2 k] assms by (simp add: powr_real_of_int' h)
qed

lemma binade_bounds:
  assumes "0 < y"
  shows "2 powi binade y \<le> y \<and> y < 2 powi (binade y + 1)"
proof (cases "1 \<le> y")
  case True
  then have p: "0 < \<lfloor>y\<rfloor>" by linarith
  define k where "k = nat (bitlen \<lfloor>y\<rfloor> - 1)"
  have kb: "bitlen \<lfloor>y\<rfloor> - 1 = int k" "bitlen \<lfloor>y\<rfloor> = int (Suc k)"
    using bitlen_bounds [OF p] bitlen_nonneg [of "\<lfloor>y\<rfloor>"] p
    by (auto simp: k_def bitlen_alt_def)
  from bitlen_bounds [OF p] have b: "2 ^ k \<le> \<lfloor>y\<rfloor>" "\<lfloor>y\<rfloor> < 2 ^ Suc k"
    unfolding k_def [symmetric] kb by (simp_all add: nat_add_distrib)
  have "(2::real) ^ k \<le> of_int \<lfloor>y\<rfloor>" using b(1) by (metis of_int_le_iff of_int_numeral of_int_power)
  then have l: "(2::real) ^ k \<le> y" by linarith
  have "\<lfloor>y\<rfloor> + 1 \<le> 2 ^ Suc k" using b(2) by simp
  then have "of_int (\<lfloor>y\<rfloor> + 1) \<le> ((2::real) ^ Suc k)"
    by (metis of_int_le_iff of_int_numeral of_int_power)
  then have u: "y < 2 ^ Suc k" by linarith
  have "binade y = int k" using True kb by (simp add: binade_def)
  then show ?thesis using l u by (simp add: power_int_def nat_add_distrib)
next
  case False
  then have y1: "y < 1" by simp
  define z where "z = 1 / y"
  have z: "1 < z" using assms y1 by (simp add: z_def)
  define n where "n = \<lceil>z\<rceil> - 1"
  have p: "0 < n" using z unfolding n_def by linarith
  define j where "j = nat (bitlen n)"
  have jb: "bitlen n = int j" "0 < j"
    using p by (auto simp: j_def bitlen_alt_def)
  from bitlen_bounds [OF p] have b: "2 ^ (j - 1) \<le> n" "n < 2 ^ j"
    unfolding jb using jb(2) by (simp_all add: nat_diff_distrib)
  have "of_int n < z" "z \<le> of_int n + 1" unfolding n_def by linarith+
  have "(2::real) ^ (j - 1) \<le> of_int n" using b(1) by (metis of_int_le_iff of_int_numeral of_int_power)
  then have l: "(2::real) ^ (j - 1) < z" using \<open>of_int n < z\<close> by linarith
  have "n + 1 \<le> 2 ^ j" using b(2) by simp
  then have "of_int (n + 1) \<le> ((2::real) ^ j)" by (metis of_int_le_iff of_int_numeral of_int_power)
  then have u: "z \<le> 2 ^ j" using \<open>z \<le> of_int n + 1\<close> by simp
  have e: "binade y = - int j" using False jb by (simp add: binade_def n_def z_def)
  have yz: "y = 1 / z" using assms by (simp add: z_def)
  have "1 / 2 ^ j \<le> y" using u z unfolding yz by (simp add: frac_le)
  moreover have "y < 1 / 2 ^ (j - 1)" using l z unfolding yz by (simp add: frac_less2)
  moreover have "(2::real) powi (- int j) = 1 / 2 ^ j" by (simp add: power_int_minus field_simps)
  moreover have "(2::real) powi (- int j + 1) = 1 / 2 ^ (j - 1)"
  proof -
    have "- int j + 1 = - int (j - 1)" using jb(2) by simp
    then have "(2::real) powi (- int j + 1) = 2 powi (- int (j - 1))" by (simp only:)
    also have "\<dots> = 1 / 2 ^ (j - 1)" by (simp add: power_int_minus field_simps)
    finally show ?thesis .
  qed
  ultimately show ?thesis unfolding e by simp
qed

lemma binade_log: "0 < y \<Longrightarrow> binade y = \<lfloor>log 2 y\<rfloor>"
  using floor_log2_eq [of "binade y" y] binade_bounds [of y] by simp

lemma floor_log2_mono:
  assumes "0 < y" "y < 2 powi k"
  shows "\<lfloor>log 2 y\<rfloor> < k"
proof (rule ccontr)
  assume "\<not> \<lfloor>log 2 y\<rfloor> < k"
  then have "k \<le> \<lfloor>log 2 y\<rfloor>" by simp
  then have "(2::real) powi k \<le> 2 powi \<lfloor>log 2 y\<rfloor>" by (intro power_int_increasing) simp_all
  with floor_log2_bounds(1) [OF assms(1)] assms(2) show False by linarith
qed

lemma float_round_abs:
  "x \<noteq> 0 \<Longrightarrow> float_lt (float_abs (float_round x)) (Fin 30) \<longleftrightarrow> rounded_abs x < 30"
proof -
  assume x: "x \<noteq> 0"
  have nn: "0 \<le> rounded_abs x"
    unfolding rounded_abs_def Let_def
    by (intro mult_nonneg_nonneg) (auto simp: round_half_even_def Let_def)
  have big: "(30::real) < 2 ^ 1024"
  proof -
    have "(30::real) < 2 ^ 5" by simp
    also have "\<dots> \<le> 2 ^ 1024" by (rule power_increasing) simp_all
    finally show ?thesis .
  qed
  show ?thesis
  proof (cases "rounded_abs x \<ge> 2 ^ 1024")
    case True
    then have "float_abs (float_round x) = PInf"
      using x unfolding float_round_def Let_def by simp
    with True big show ?thesis by simp
  next
    case False
    then have "float_round x = Fin (sgn x * rounded_abs x)"
      using x unfolding float_round_def Let_def by simp
    then have "float_abs (float_round x) = Fin (rounded_abs x)"
      using x nn by (simp add: abs_mult)
    then show ?thesis by simp
  qed
qed

lemma rounded_abs_less_30:
  assumes "x \<noteq> 0"
  shows "rounded_abs x < 30 \<longleftrightarrow> \<bar>x\<bar> < 30 - 1 / 2 ^ 49"
proof -
  define y where "y = \<bar>x\<bar>"
  have y: "0 < y" using assms by (simp add: y_def)
  define e where "e = max \<lfloor>log 2 y\<rfloor> (- 1022)"
  define ulp :: real where "ulp = 2 powi (e - 52)"
  have r: "rounded_abs x = of_int (round_half_even (y / ulp)) * ulp"
    using assms by (simp add: rounded_abs_def Let_def y_def e_def ulp_def binade_log)
  have up: "0 < ulp" by (simp add: ulp_def)
  have "(1::real) \<le> 2 ^ 49" by (rule one_le_power) simp
  then have small: "(1::real) / 2 ^ 49 \<le> 1" by (simp add: field_simps)
  consider "y < 16" | "16 \<le> y" "y < 32" | "32 \<le> y" by linarith
  then show ?thesis
  proof cases
    case 1
    have "\<lfloor>log 2 y\<rfloor> < 4" using floor_log2_mono [of y 4] y 1 by simp
    then have "e \<le> 3" by (simp add: e_def)
    then have "ulp \<le> 2 powi (3 - 52)"
      unfolding ulp_def by (intro power_int_increasing) simp_all
    also have "\<dots> \<le> 1" by (simp add: power_int_minus field_simps)
    finally have u1: "ulp \<le> 1" .
    have "of_int (round_half_even (y / ulp)) * ulp \<le> (y / ulp + 1) * ulp"
      using round_half_even_bounds(1) [of "y / ulp"] up by (simp add: mult_right_mono)
    also have "\<dots> = y + ulp" using up by (simp add: field_simps)
    finally have "rounded_abs x \<le> y + 1" using u1 r by linarith
    with 1 small show ?thesis by (simp add: y_def [symmetric])
  next
    case 3
    have "2 powi 5 \<le> y" using 3 by (simp add: power_int_def)
    have l5: "5 \<le> \<lfloor>log 2 y\<rfloor>"
    proof (rule ccontr)
      assume "\<not> 5 \<le> \<lfloor>log 2 y\<rfloor>"
      then have "\<lfloor>log 2 y\<rfloor> + 1 \<le> 5" by simp
      then have "(2::real) powi (\<lfloor>log 2 y\<rfloor> + 1) \<le> 2 powi 5"
        by (intro power_int_increasing) simp_all
      with floor_log2_bounds(2) [OF y] 3 show False by (simp add: power_int_def)
    qed
    then have e: "e = \<lfloor>log 2 y\<rfloor>" by (simp add: e_def)
    have "ulp = 2 powi (e + (- 52))" by (simp add: ulp_def)
    also have "\<dots> = 2 powi e * 2 powi (- 52)" by (rule power_int_add) simp
    also have "\<dots> \<le> y * 2 powi (- 52)"
      using floor_log2_bounds(1) [OF y] e by (simp add: mult_right_mono)
    finally have u: "ulp \<le> y * 2 powi (- 52)" .
    have "(y / ulp - 1) * ulp \<le> of_int (round_half_even (y / ulp)) * ulp"
      using round_half_even_bounds(2) [of "y / ulp"] up by (simp add: mult_right_mono)
    moreover have "(y / ulp - 1) * ulp = y - ulp" using up by (simp add: field_simps)
    ultimately have "y - y * 2 powi (- 52) \<le> rounded_abs x" using u r by linarith
    moreover have "(2::real) powi (- 52) \<le> 1 / 16" by (simp add: power_int_minus field_simps)
    then have "y * 2 powi (- 52) \<le> y * (1 / 16)" using y by (intro mult_left_mono) simp_all
    ultimately have "y * (15 / 16) \<le> rounded_abs x" by linarith
    with 3 have "30 \<le> rounded_abs x" by linarith
    with 3 show ?thesis by (simp add: y_def [symmetric]) 
  next
    case 2
    have "\<lfloor>log 2 y\<rfloor> = 4" using 2 by (intro floor_log2_eq) (simp_all add: power_int_def)
    then have "e = 4" by (simp add: e_def)
    then have ulp: "ulp = 1 / 2 ^ 48" by (simp add: ulp_def power_int_minus field_simps)
    have ev: "even (30 * 2 ^ 48 :: int)" by simp
    have "rounded_abs x < 30 \<longleftrightarrow> of_int (round_half_even (y * 2 ^ 48)) < (30 * 2 ^ 48 :: real)"
      unfolding r ulp by (simp add: field_simps)
    also have "\<dots> \<longleftrightarrow> round_half_even (y * 2 ^ 48) < 30 * 2 ^ 48"
      by (metis of_int_less_iff of_int_mult of_int_numeral of_int_power)
    also have "\<dots> \<longleftrightarrow> y * 2 ^ 48 < of_int (30 * 2 ^ 48) - 1 / 2"
      by (rule round_half_even_less_even [OF ev])
    also have "\<dots> \<longleftrightarrow> y < 30 - 1 / 2 ^ 49"
      by (simp add: field_simps)
    finally show ?thesis by (simp add: y_def)
  qed
qed

lemma float_close_iff:
  "float_lt (float_abs (float_sub (Fin s) (Fin t))) (Fin 30) \<longleftrightarrow> \<bar>s - t\<bar> < 30 - 1 / 2 ^ 49"
proof (cases "s - t = 0")
  case True
  then show ?thesis by (simp add: float_round_def)
next
  case False
  then show ?thesis using float_round_abs [OF False] rounded_abs_less_30 [OF False] by simp
qed

lemma float_close_examples:
  "float_lt (float_abs (float_sub (Fin 0) (Fin 29))) (Fin 30)"
  "\<not> float_lt (float_abs (float_sub (Fin (1 / 2 ^ 70)) (Fin 30))) (Fin 30)"
  "\<not> float_lt (float_abs (float_sub NaN (Fin 0))) (Fin 30)"
  "\<not> float_lt (float_abs (float_sub PInf PInf)) (Fin 30)"
proof -
  have "(1::real) / 2 ^ 70 \<le> 1 / 2 ^ 49" by (simp add: field_simps)
  then show "\<not> float_lt (float_abs (float_sub (Fin (1 / 2 ^ 70)) (Fin 30))) (Fin 30)"
    unfolding float_close_iff by linarith
  have "(1::real) / 2 ^ 49 \<le> 1" by (simp add: field_simps)
  then show "float_lt (float_abs (float_sub (Fin 0) (Fin 29))) (Fin 30)"
    unfolding float_close_iff by simp
qed simp_all

lemma float_close_cases:
  "float_lt (float_abs (float_sub x y)) (Fin 30) \<longleftrightarrow> seconds_apart_less x y (30 - 1 / 2 ^ 49)"
  by (cases x; cases y; simp add: float_close_iff del: float_sub.simps(1))

text \<open>
  Claim C5, as the code has it. Two items are the same event exactly when their sources
  are equal and either both event ids are non-empty and equal, or both are empty and one
  of three tests succeeds: the normalized texts are non-empty and equal (whatever the
  timestamps); the shock times are non-empty and equal (whatever the texts); or both
  normalized texts are non-empty, agree on their first 80 characters, and the float
  difference of the timestamps is below 30 in absolute value, which is to say that both
  timestamps are finite and less than \<open>30 - 2 ^ - 49\<close> seconds apart.
\<close>

theorem C5_is_same_event_iff:
  "is_same_event a b \<longleftrightarrow>
     source a = source b \<and>
     ((event_id a \<noteq> [] \<and> event_id b \<noteq> [] \<and> event_id a = event_id b) \<or>
      (event_id a = [] \<and> event_id b = [] \<and>
       ((normalize_warning_text (text a) \<noteq> [] \<and>
           normalize_warning_text (text a) = normalize_warning_text (text b)) \<or>
        (truthy (shock_time a) \<and> truthy (shock_time b) \<and> shock_time a = shock_time b) \<or>
        (normalize_warning_text (text a) \<noteq> [] \<and> normalize_warning_text (text b) \<noteq> [] \<and>
           seconds_apart_less (timestamp a) (timestamp b) (30 - 1 / 2 ^ 49) \<and>
           take 80 (normalize_warning_text (text a))
             = take 80 (normalize_warning_text (text b))))))"
  unfolding is_same_event_def Let_def float_close_cases by auto

text \<open>
  Two weather alerts of one source without event id and with the same text, 100 seconds
  apart, are the same event.
\<close>

theorem C5_is_same_event_iff_witness:
  "is_same_event (new_item 1 [65, 66] 0 ''weather'' ''weatheralarm'' [])
                 (new_item 2 [65, 66] 100 ''weather'' ''weatheralarm'' [])"
  using C5_is_same_event_iff [of "new_item 1 [65, 66] 0 ''weather'' ''weatheralarm'' []"
                               "new_item 2 [65, 66] 100 ''weather'' ''weatheralarm'' []"]
  by (simp add: new_item_def normalize_AB)

text \<open>
  The rule of the specification fails on two messages of one source without event id
  and with the same text, 100 seconds apart: the code takes them for the same event.
\<close>

theorem C5_spec_rule_counterexample:
  "is_same_event (new_item 1 [65, 66] 0 ''weather'' ''weatheralarm'' [])
                 (new_item 2 [65, 66] 100 ''weather'' ''weatheralarm'' []) \<and>
   \<not> is_same_event_spec (new_item 1 [65, 66] 0 ''weather'' ''weatheralarm'' [])
                        (new_item 2 [65, 66] 100 ''weather'' ''weatheralarm'' [])"
  by (simp add: is_same_event_def is_same_event_spec_def new_item_def normalize_AB)

subsection \<open>Expiry of displayed warnings\<close>

lemma sweep_buffer:
  "buffer (warning_buffer (snd (clean_expired_warnings cfg env st))) =
     filter (is_warning_still_valid cfg env) (buffer (warning_buffer st))"
proof (cases "length (filter (is_warning_still_valid cfg env) (buffer (warning_buffer st)))
                < length (buffer (warning_buffer st))")
  case True
  then show ?thesis by (simp add: clean_expired_warnings_def Let_def)
next
  case False
  then have "length (filter (is_warning_still_valid cfg env) (buffer (warning_buffer st)))
               = length (buffer (warning_buffer st))"
    using length_filter_le [of "is_warning_still_valid cfg env" "buffer (warning_buffer st)"]
    by linarith
  then have "filter (is_warning_still_valid cfg env) (buffer (warning_buffer st))
               = buffer (warning_buffer st)"
    by (metis filter_True length_filter_less not_less_iff_gr_or_eq)
  with False show ?thesis by (simp add: clean_expired_warnings_def Let_def)
qed

text \<open>
  Claim C2. For a warning whose \<open>first_displayed_at\<close> is set, the validity predicate of
  the sweep holds exactly while less than \<open>warning_min_display_seconds\<close> have passed
  since then, whatever its shock time; and such a warning in the warning buffer is
  still there after an expiry sweep exactly in that case.
\<close>

theorem C2_min_display_time:
  assumes "first_displayed_at m = Some shown"
  shows "(is_warning_still_valid cfg env m \<longleftrightarrow>
            time_time env - shown < of_int (warning_min_display_seconds cfg)) \<and>
         (m \<in> set (buffer (warning_buffer st)) \<longrightarrow>
            (m \<in> set (buffer (warning_buffer (snd (clean_expired_warnings cfg env st)))) \<longleftrightarrow>
             time_time env - shown < of_int (warning_min_display_seconds cfg)))"
proof -
  have "is_warning_still_valid cfg env m \<longleftrightarrow>
          time_time env - shown < of_int (warning_min_display_seconds cfg)"
    using assms by (simp add: is_warning_still_valid_def)
  then show ?thesis by (simp add: sweep_buffer)
qed

text \<open>
  Scenario D: 250 seconds after its first display, with a shock time 310 seconds old,
  the warning is kept; 300 seconds after its first display it is removed.
\<close>

theorem C2_min_display_time_witness:
  "is_warning_still_valid cfg0 (env_at 310) shown_warning \<and>
   shown_warning \<in> set (buffer (warning_buffer
                      (snd (clean_expired_warnings cfg0 (env_at 310) st_shown)))) \<and>
   \<not> is_warning_still_valid cfg0 (env_at 360) shown_warning \<and>
   shown_warning \<notin> set (buffer (warning_buffer
                      (snd (clean_expired_warnings cfg0 (env_at 360) st_shown))))"
  using C2_min_display_time [of shown_warning 60 cfg0 "env_at 310" st_shown]
        C2_min_display_time [of shown_warning 60 cfg0 "env_at 360" st_shown]
  by (simp add: shown_warning_def new_item_def cfg0_def env_at_def st_shown_def)

subsection \<open>Insertion into a buffer\<close>

lemma find_index_Some:
  "find_index P xs = Some i \<Longrightarrow> i < length xs \<and> P (xs ! i) \<and> (\<forall>j<i. \<not> P (xs ! j))"
proof (induction xs arbitrary: i)
  case Nil
  then show ?case by simp
next
  case (Cons x xs)
  show ?case
  proof (cases "P x")
    case True
    with Cons.prems show ?thesis by simp
  next
    case False
    with Cons.prems obtain k where k: "find_index P xs = Some k" "i = Suc k"
      by auto
    from Cons.IH [OF k(1)] False k(2) show ?thesis
      by (auto simp: nth_Cons split: nat.splits)
  qed
qed

lemma find_index_None: "find_index P xs = None \<longleftrightarrow> (\<forall>x\<in>set xs. \<not> P x)"
  by (induction xs) auto

lemma buffer_carry_add_order [simp]: "buffer (carry_add_order b old new) = buffer b"
  by (simp add: carry_add_order_def split: option.splits)

lemma use_priority_carry_add_order [simp]:
  "use_priority (carry_add_order b old new) = use_priority b"
  by (simp add: carry_add_order_def split: option.splits)

lemma max_size_carry_add_order [simp]: "max_size (carry_add_order b old new) = max_size b"
  by (simp add: carry_add_order_def split: option.splits)

lemma buffer_sort_by_priority:
  "buffer (sort_by_priority b) = sort_key (sort_key_of b) (buffer b)"
  by (simp add: sort_by_priority_def Let_def split: option.splits)

lemma max_size_sort_by_priority [simp]: "max_size (sort_by_priority b) = max_size b"
  by (simp add: sort_by_priority_def Let_def split: option.splits)

lemma mset_buffer_sort_if_priority [simp]:
  "mset (buffer (sort_if_priority b)) = mset (buffer b)"
  by (simp add: sort_if_priority_def buffer_sort_by_priority)

lemma max_size_sort_if_priority [simp]: "max_size (sort_if_priority b) = max_size b"
  by (simp add: sort_if_priority_def)

lemma distinct_srcs_mset:
  "mset xs = mset ys \<Longrightarrow> distinct (map source xs) = distinct (map source ys)"
proof -
  assume "mset xs = mset ys"
  then have "mset (map source xs) = mset (map source ys)" by (metis mset_map)
  then show ?thesis by (rule mset_eq_imp_distinct_iff)
qed

lemma ops_sort_if_priority [simp]: "one_per_source (sort_if_priority b) = one_per_source b"
  unfolding one_per_source_def srcs_def by (rule distinct_srcs_mset) simp

lemma ops_sort_by_priority [simp]: "one_per_source (sort_by_priority b) = one_per_source b"
  unfolding one_per_source_def srcs_def
  by (rule distinct_srcs_mset) (simp add: buffer_sort_by_priority)

lemma evict_if_full_Inr:
  "evict_if_full b = Inr b1 \<Longrightarrow>
     max_size b1 = max_size b \<and> use_priority b1 = use_priority b \<and>
     (buffer b1 = buffer b \<or> buffer b1 = tl (buffer b))"
  by (auto simp: evict_if_full_def split: if_splits list.splits)

lemma evict_if_full_Inl:
  "evict_if_full b = Inl e \<Longrightarrow> buffer b = [] \<and> max_size b \<le> 0"
  by (auto simp: evict_if_full_def split: if_splits list.splits)

lemma brs_step_Inl: "brs_step b m = Inl e \<Longrightarrow> buffer b = [] \<and> max_size b \<le> 0"
  by (auto simp: brs_step_def Let_def split: option.splits sum.splits dest: evict_if_full_Inl)

lemma brs_step_Inr:
  assumes "brs_step b m = Inr (r, b1)"
  shows "max_size b1 = max_size b \<and> use_priority b1 = use_priority b \<and> buffer b1 \<noteq> [] \<and>
         (one_per_source b \<longrightarrow> one_per_source b1)"
proof (cases "find_index (\<lambda>existing_msg. source m = source existing_msg) (buffer b)")
  case None
  then obtain b0 where b0: "evict_if_full b = Inr b0" and b1: "b1 = append_new b0 m"
    using assms by (auto simp: brs_step_def split: sum.splits)
  from None have notin: "source m \<notin> set (map source (buffer b))"
    by (auto simp: find_index_None)
  from evict_if_full_Inr [OF b0] have
    e: "max_size b0 = max_size b" "use_priority b0 = use_priority b"
       "buffer b0 = buffer b \<or> buffer b0 = tl (buffer b)" by auto
  have sub: "set (buffer b0) \<subseteq> set (buffer b)"
    using e(3) by (cases "buffer b") auto
  have d: "distinct (map source (buffer b)) \<Longrightarrow> distinct (map source (buffer b0))"
    using e(3) by (cases "buffer b") auto
  show ?thesis
    using e notin sub d by (auto simp: b1 append_new_def one_per_source_def srcs_def)
next
  case (Some i)
  from find_index_Some [OF Some] have i: "i < length (buffer b)" "source m = source (buffer b ! i)"
    by auto
  have k: "source (keep_image_path m (buffer b ! i)) = source m"
    by (simp add: keep_image_path_def)
  have b1: "b1 = (carry_add_order b (oid (buffer b ! i)) (oid m))
                   \<lparr>buffer := (buffer b)[i := keep_image_path m (buffer b ! i)]\<rparr>"
    using assms Some by (simp add: brs_step_def Let_def)
  have "map source ((buffer b)[i := keep_image_path m (buffer b ! i)]) = map source (buffer b)"
    using i k by (simp add: map_update list_update_same_conv)
  then show ?thesis
    using i by (auto simp: b1 one_per_source_def srcs_def)
qed

lemma brs_loop_Inr:
  "brs_loop b ms = Inr (rs, b1) \<Longrightarrow>
     max_size b1 = max_size b \<and> use_priority b1 = use_priority b \<and>
     (one_per_source b \<longrightarrow> one_per_source b1)"
proof (induction ms arbitrary: b rs)
  case Nil
  then show ?case by simp
next
  case (Cons m ms)
  from Cons.prems obtain r b0 rs0 where
    s: "brs_step b m = Inr (r, b0)" and l: "brs_loop b0 ms = Inr (rs0, b1)"
    by (auto split: sum.splits)
  from brs_step_Inr [OF s] Cons.IH [OF l] show ?case by auto
qed

lemma brs_loop_total:
  "0 < max_size b \<Longrightarrow> \<exists>rs b1. brs_loop b ms = Inr (rs, b1)"
proof (induction ms arbitrary: b)
  case Nil
  then show ?case by simp
next
  case (Cons m ms)
  show ?case
  proof (cases "brs_step b m")
    case (Inl e)
    from brs_step_Inl [OF Inl] Cons.prems show ?thesis by simp
  next
    case (Inr p)
    obtain r b0 where p: "p = (r, b0)" by (cases p)
    from brs_step_Inr [of b m r b0] Inr p Cons.prems have "0 < max_size b0" by simp
    from Cons.IH [OF this] Inr p show ?thesis by auto
  qed
qed

lemma brs_loop_Inl:
  "brs_loop b ms = Inl e \<Longrightarrow> buffer b = [] \<and> max_size b \<le> 0"
proof (cases ms)
  case Nil
  assume "brs_loop b ms = Inl e"
  with Nil show ?thesis by simp
next
  case (Cons m ms')
  assume a: "brs_loop b ms = Inl e"
  show ?thesis
  proof (cases "brs_step b m")
    case (Inl e')
    from brs_step_Inl [OF Inl] show ?thesis .
  next
    case (Inr p)
    obtain r b0 where p: "p = (r, b0)" by (cases p)
    from brs_step_Inr [of b m r b0] Inr p have ne: "buffer b0 \<noteq> []" by simp
    from a Cons Inr p obtain e' where l: "brs_loop b0 ms' = Inl e'"
      by (auto split: sum.splits)
    have "\<And>b. buffer b \<noteq> [] \<Longrightarrow> brs_loop b ms' \<noteq> Inl e'"
    proof (induction ms')
      case Nil
      then show ?case by simp
    next
      case (Cons x xs)
      show ?case
      proof (cases "brs_step b x")
        case (Inl e2)
        from brs_step_Inl [OF Inl] Cons.prems show ?thesis by simp
      next
        case (Inr q)
        obtain r2 b2 where q: "q = (r2, b2)" by (cases q)
        from brs_step_Inr [of b x r2 b2] Inr q have "buffer b2 \<noteq> []" by simp
        from Cons.IH [OF this] Inr q show ?thesis by (auto split: sum.splits)
      qed
    qed
    from this [OF ne] l show ?thesis by simp
  qed
qed

lemma batch_Inr:
  "batch_replace_by_source b ms = Inr (rs, b1) \<Longrightarrow>
     max_size b1 = max_size b \<and> (one_per_source b \<longrightarrow> one_per_source b1)"
  by (auto simp: batch_replace_by_source_def Let_def split: sum.splits dest: brs_loop_Inr)

lemma batch_total:
  "0 < max_size b \<Longrightarrow> \<exists>rs b1. batch_replace_by_source b ms = Inr (rs, b1)"
  using brs_loop_total [of b "unique_messages ms"]
  by (auto simp: batch_replace_by_source_def Let_def)

lemma batch_Inl:
  "batch_replace_by_source b ms = Inl e \<Longrightarrow> buffer b = [] \<and> max_size b \<le> 0"
  by (auto simp: batch_replace_by_source_def Let_def split: sum.splits prod.splits dest: brs_loop_Inl)

text \<open>
  Claim C10. When a message replaces the entry of its source in
  \<open>batch_replace_by_source\<close> (in the loop body \<open>brs_step\<close>, and so in a call with that
  message), the new entry is the incoming message, except that a weather message
  without image path takes the image path of the entry it replaces when that entry has
  one; for other types, or when the incoming message has a path, nothing is carried
  over.
\<close>

theorem C10_image_path_carry_over:
  assumes "find_index (\<lambda>existing_msg. source message = source existing_msg) (buffer b) = Some i"
  shows "(\<exists>b1. brs_step b message = Inr (True, b1) \<and>
               buffer b1 = (buffer b)[i :=
                 (if message_type message = ''weather'' \<and> \<not> truthy (image_path message)
                     \<and> truthy (image_path (buffer b ! i))
                  then message\<lparr>image_path := image_path (buffer b ! i)\<rparr> else message)]) \<and>
         (\<exists>b2. batch_replace_by_source b [message] = Inr ([True], b2) \<and>
                mset (buffer b2) = mset ((buffer b)[i :=
                 (if message_type message = ''weather'' \<and> \<not> truthy (image_path message)
                     \<and> truthy (image_path (buffer b ! i))
                  then message\<lparr>image_path := image_path (buffer b ! i)\<rparr> else message)]))"
proof -
  have s: "brs_step b message
             = Inr (True, (carry_add_order b (oid (buffer b ! i)) (oid message))
                            \<lparr>buffer := (buffer b)[i := keep_image_path message (buffer b ! i)]\<rparr>)"
    using assms by (simp add: brs_step_def Let_def)
  have u: "unique_messages [message] = [message]"
    by (simp add: unique_messages_def source_to_latest_msg_def latest_step_def)
  show ?thesis
    by (simp add: s batch_replace_by_source_def u Let_def keep_image_path_def)
qed

text \<open>
  A weather alert without image path replaces the alert of its source that has one: the
  new entry carries the old path.
\<close>

theorem C10_image_path_carry_over_witness:
  "(\<exists>b1. brs_step wx_buffer wx_new = Inr (True, b1) \<and>
         buffer b1 = [wx_new\<lparr>image_path := Some ''rain.png''\<rparr>]) \<and>
   (\<exists>b2. batch_replace_by_source wx_buffer [wx_new] = Inr ([True], b2) \<and>
         mset (buffer b2) = {#wx_new\<lparr>image_path := Some ''rain.png''\<rparr>#})"
  using C10_image_path_carry_over [of wx_new wx_buffer 0]
  by (simp add: wx_buffer_def wx_old_def wx_new_def new_item_def MessageBuffer_init_def truthy_def)


subsection \<open>One message per source\<close>

lemma no_insert_refl [simp]: "no_insert b b"
  by (simp add: no_insert_def)

lemma no_insert_trans: "no_insert a b \<Longrightarrow> no_insert b c \<Longrightarrow> no_insert a c"
  unfolding no_insert_def by (rule subset_mset.order_trans)

lemma quiet_refl [simp]: "quiet st st"
  by (simp add: quiet_def)

lemma quiet_trans: "quiet a b \<Longrightarrow> quiet b c \<Longrightarrow> quiet a c"
  unfolding quiet_def by (blast intro: no_insert_trans)

lemma distinct_submset:
  assumes "mset xs \<subseteq># mset ys" and "distinct ys"
  shows "distinct xs"
proof -
  have "\<And>a. count (mset xs) a \<le> 1"
  proof -
    fix a
    have "count (mset xs) a \<le> count (mset ys) a"
      using assms(1) by (rule mset_subset_eq_count)
    also have "\<dots> \<le> 1"
      using assms(2) by (simp add: distinct_count_atmost_1)
    finally show "count (mset xs) a \<le> 1" .
  qed
  then show ?thesis
    by (metis count_mset_0_iff distinct_count_atmost_1 le_antisym not_less_eq_eq less_one linorder_not_less)
qed

lemma no_insert_ops:
  assumes "no_insert b b'" and "one_per_source b"
  shows "one_per_source b'"
proof -
  have "image_mset (\<lambda>p. fst (snd p)) (mset (idents b'))
          \<subseteq># image_mset (\<lambda>p. fst (snd p)) (mset (idents b))"
    using assms(1) unfolding no_insert_def by (rule image_mset_subseteq_mono)
  then have "mset (srcs b') \<subseteq># mset (srcs b)"
    by (simp add: idents_def srcs_def multiset.map_comp comp_def)
  then show ?thesis
    using assms(2) unfolding one_per_source_def by (rule distinct_submset)
qed

lemma quiet_inv: "quiet st st' \<Longrightarrow> arbiter_inv st \<Longrightarrow> arbiter_inv st'"
  unfolding quiet_def arbiter_inv_def by (blast intro: no_insert_ops)

lemma no_insert_same_idents: "idents b' = idents b \<Longrightarrow> no_insert b b'"
  by (simp add: no_insert_def)

lemma no_insert_mset: "mset (buffer b') = mset (buffer b) \<Longrightarrow> no_insert b b'"
  unfolding no_insert_def idents_def by (metis mset_map subset_mset.order_refl)

lemma no_insert_filter: "buffer b' = filter P (buffer b) \<Longrightarrow> no_insert b b'"
proof -
  assume a: "buffer b' = filter P (buffer b)"
  have "mset (filter P (buffer b)) \<subseteq># mset (buffer b)"
    by simp
  then have "image_mset (\<lambda>m. (oid m, source m, event_id m)) (mset (filter P (buffer b)))
               \<subseteq># image_mset (\<lambda>m. (oid m, source m, event_id m)) (mset (buffer b))"
    by (rule image_mset_subseteq_mono)
  then show ?thesis
    by (simp add: no_insert_def idents_def a)
qed

lemma idents_update_object:
  assumes "\<And>m. oid (f m) = oid m \<and> source (f m) = source m \<and> event_id (f m) = event_id m"
  shows "idents (warning_buffer (update_object i f st)) = idents (warning_buffer st)"
    and "idents (report_buffer (update_object i f st)) = idents (report_buffer st)"
  using assms by (simp_all add: update_object_def idents_def Let_def)

lemma quiet_update_object:
  assumes "\<And>m. oid (f m) = oid m \<and> source (f m) = source m \<and> event_id (f m) = event_id m"
  shows "quiet st (update_object i f st)"
  unfolding quiet_def using idents_update_object [of f i st, OF assms]
  by (simp add: no_insert_same_idents)

lemma quiet_mark [simp]: "quiet st (update_object i (mark_displayed t) st)"
  by (rule quiet_update_object) (simp add: mark_displayed_def)

lemma quiet_step: "quiet st st1 \<Longrightarrow> quiet st1 st2 \<Longrightarrow> quiet st st2"
  by (rule quiet_trans)

lemma quiet_other_fields [simp]:
  "quiet st (st'\<lparr>scrolling_text := w\<rparr>) = quiet st st'"
  "quiet st (st'\<lparr>current_display_type := t\<rparr>) = quiet st st'"
  "quiet st (st'\<lparr>switching_to_report := s\<rparr>) = quiet st st'"
  "quiet st (st'\<lparr>current_displaying_message := c\<rparr>) = quiet st st'"
  "quiet st (st'\<lparr>pending_update_message := p\<rparr>) = quiet st st'"
  "quiet st (st'\<lparr>message_queue := q\<rparr>) = quiet st st'"
  "quiet st (st'\<lparr>next_oid := n\<rparr>) = quiet st st'"
  by (simp_all add: quiet_def)

lemma quiet_other_fields_left [simp]:
  "quiet (st\<lparr>scrolling_text := w\<rparr>) st' = quiet st st'"
  "quiet (st\<lparr>current_display_type := t\<rparr>) st' = quiet st st'"
  "quiet (st\<lparr>switching_to_report := s\<rparr>) st' = quiet st st'"
  "quiet (st\<lparr>current_displaying_message := c\<rparr>) st' = quiet st st'"
  "quiet (st\<lparr>pending_update_message := p\<rparr>) st' = quiet st st'"
  "quiet (st\<lparr>message_queue := q\<rparr>) st' = quiet st st'"
  "quiet (st\<lparr>next_oid := n\<rparr>) st' = quiet st st'"
  by (simp_all add: quiet_def)

lemma quiet_warning_buffer:
  "no_insert (warning_buffer st) wb \<Longrightarrow> quiet st (st\<lparr>warning_buffer := wb\<rparr>)"
  by (simp add: quiet_def)

lemma quiet_report_buffer:
  "no_insert (report_buffer st) rb \<Longrightarrow> quiet st (st\<lparr>report_buffer := rb\<rparr>)"
  by (simp add: quiet_def)

lemma no_insert_pointer [simp]:
  "no_insert b (b\<lparr>current_index := ci\<rparr>)"
  "no_insert b (b\<lparr>current_displaying_msg_id := cid\<rparr>)"
  "no_insert b (b\<lparr>current_index := ci, current_displaying_msg_id := cid\<rparr>)"
  by (simp_all add: no_insert_def idents_def)

lemma no_insert_get_next: "no_insert b (snd (get_next b))"
  by (rule no_insert_mset)
     (simp add: get_next_def get_next_by_priority_def Let_def buffer_sort_by_priority)

lemma idents_pointer [simp]:
  "idents (b\<lparr>current_index := ci\<rparr>) = idents b"
  "idents (b\<lparr>current_displaying_msg_id := cid\<rparr>) = idents b"
  by (simp_all add: idents_def)

lemma idents_mark [simp]:
  "idents (warning_buffer (update_object i (mark_displayed t) st)) = idents (warning_buffer st)"
  "idents (report_buffer (update_object i (mark_displayed t) st)) = idents (report_buffer st)"
  by (rule idents_update_object; simp add: mark_displayed_def)+

lemma idents_switch_to_warning_mode [simp]:
  "idents (warning_buffer (switch_to_warning_mode env m f st)) = idents (warning_buffer st)"
  "idents (report_buffer (switch_to_warning_mode env m f st)) = idents (report_buffer st)"
  by (simp_all add: switch_to_warning_mode_def Let_def split: prod.splits option.splits)

lemma idents_do_switch_to_report [simp]:
  "idents (warning_buffer (do_switch_to_report m st)) = idents (warning_buffer st)"
  "idents (report_buffer (do_switch_to_report m st)) = idents (report_buffer st)"
  by (simp_all add: do_switch_to_report_def Let_def split: prod.splits)

lemma idents_switch_to_report_mode [simp]:
  "idents (warning_buffer (switch_to_report_mode st)) = idents (warning_buffer st)"
  "idents (report_buffer (switch_to_report_mode st)) = idents (report_buffer st)"
  by (simp_all add: switch_to_report_mode_def split: list.splits)

lemma idents_demote_if_possible [simp]:
  "idents (warning_buffer (demote_if_possible st)) = idents (warning_buffer st)"
  "idents (report_buffer (demote_if_possible st)) = idents (report_buffer st)"
  by (simp_all add: demote_if_possible_def)

lemma idents_show_cancellation_notice [simp]:
  "idents (warning_buffer (show_cancellation_notice cfg s c st)) = idents (warning_buffer st)"
  "idents (report_buffer (show_cancellation_notice cfg s c st)) = idents (report_buffer st)"
  by (simp_all add: show_cancellation_notice_def Let_def split: prod.splits)

lemma idents_scroll_tail [simp]:
  "idents (warning_buffer (scroll_tail st)) = idents (warning_buffer st)"
  "idents (report_buffer (scroll_tail st)) = idents (report_buffer st)"
  by (simp_all add: scroll_tail_def)

lemma idents_show_next_warning [simp]:
  "idents (warning_buffer (show_next_warning env m st)) = idents (warning_buffer st)"
  "idents (report_buffer (show_next_warning env m st)) = idents (report_buffer st)"
  by (simp_all add: show_next_warning_def Let_def split: prod.splits)

lemma idents_stage_pending [simp]:
  "idents (warning_buffer (stage_pending ps st)) = idents (warning_buffer st)"
  "idents (report_buffer (stage_pending ps st)) = idents (report_buffer st)"
  by (induction ps st rule: stage_pending.induct; simp split: option.splits)+

lemma mset_idents_get_next [simp]: "mset (idents (snd (get_next b))) = mset (idents b)"
proof -
  have "mset (buffer (snd (get_next b))) = mset (buffer b)"
    by (simp add: get_next_def get_next_by_priority_def Let_def buffer_sort_by_priority)
  then show ?thesis
    unfolding idents_def by (metis mset_map)
qed

lemma idents_show_next_report [simp]:
  "idents (warning_buffer (show_next_report st)) = idents (warning_buffer st)"
  "mset (idents (report_buffer (show_next_report st))) = mset (idents (report_buffer st))"
proof -
  show "idents (warning_buffer (show_next_report st)) = idents (warning_buffer st)"
    by (simp add: show_next_report_def Let_def split: prod.splits option.splits)
  have g: "\<And>r rb1. get_next (report_buffer st) = (r, rb1)
             \<Longrightarrow> mset (idents rb1) = mset (idents (report_buffer st))"
    using mset_idents_get_next [of "report_buffer st"] by simp
  show "mset (idents (report_buffer (show_next_report st))) = mset (idents (report_buffer st))"
    by (auto simp: show_next_report_def Let_def g split: prod.splits option.splits)
qed

lemma no_insert_idents_cong: "idents b1 = idents b2 \<Longrightarrow> no_insert b b1 = no_insert b b2"
  by (simp add: no_insert_def)

lemma no_insert_mset_idents: "mset (idents b1) = mset (idents b2) \<Longrightarrow> no_insert b b1 = no_insert b b2"
  by (simp add: no_insert_def)

lemma report_buffer_sweep [simp]:
  "report_buffer (snd (clean_expired_warnings cfg env st)) = report_buffer st"
  by (simp add: clean_expired_warnings_def Let_def)

lemma no_insert_sweep:
  "no_insert (warning_buffer st) (warning_buffer (snd (clean_expired_warnings cfg env st)))"
  by (rule no_insert_filter) (rule sweep_buffer)

lemma no_insert_get_next_fst:
  "get_next b = (r, b') \<Longrightarrow> no_insert b b'"
  using no_insert_get_next [of b] by simp

lemma quiet_I:
  "no_insert (warning_buffer st) (warning_buffer st') \<Longrightarrow>
   idents (report_buffer st') = idents (report_buffer st) \<Longrightarrow> quiet st st'"
  by (simp add: quiet_def no_insert_same_idents)

lemma quiet_demote [simp]: "quiet st (demote_if_possible st') = quiet st st'"
  by (simp add: quiet_def no_insert_def)

lemma quiet_tail [simp]: "quiet st (scroll_tail st') = quiet st st'"
  by (simp add: quiet_def no_insert_def)

lemma quiet_show_next_warning [simp]: "quiet st (show_next_warning env m st') = quiet st st'"
  by (simp add: quiet_def no_insert_def)

lemma quiet_show_next_report [simp]: "quiet st (show_next_report st') = quiet st st'"
  by (simp add: quiet_def no_insert_def)

lemma quiet_switch_to_warning_mode [simp]:
  "quiet st (switch_to_warning_mode env m f st') = quiet st st'"
  by (simp add: quiet_def no_insert_def)

lemma quiet_switch_to_report_mode [simp]:
  "quiet st (switch_to_report_mode st') = quiet st st'"
  by (simp add: quiet_def no_insert_def)

lemma quiet_show_cancellation_notice [simp]:
  "quiet st (show_cancellation_notice cfg s c st') = quiet st st'"
  by (simp add: quiet_def no_insert_def)

lemma quiet_sweep: "quiet st (snd (clean_expired_warnings cfg env st))"
  by (simp add: quiet_def no_insert_sweep)

lemma quiet_wb:
  "quiet st st1 \<Longrightarrow> no_insert (warning_buffer st1) wb \<Longrightarrow> quiet st (st1\<lparr>warning_buffer := wb\<rparr>)"
  unfolding quiet_def by (auto intro: no_insert_trans)

lemma quiet_on_scroll_completed: "quiet st (on_scroll_completed cfg env st)"
proof -
  define st1 where "st1 = snd (clean_expired_warnings cfg env st)"
  have q1: "quiet st st1"
    unfolding st1_def by (rule quiet_sweep)
  obtain next_msg wb2 where g: "get_next (warning_buffer st1) = (next_msg, wb2)"
    by (cases "get_next (warning_buffer st1)")
  define st2 where "st2 = st1\<lparr>warning_buffer := wb2\<rparr>"
  have q2: "quiet st st2"
    unfolding st2_def by (rule quiet_wb [OF q1 no_insert_get_next_fst [OF g]])
  have q4: "quiet st (snd (clean_expired_warnings cfg env
              (st2\<lparr>warning_buffer := (warning_buffer st2)
                 \<lparr>buffer := filter P (buffer (warning_buffer st2)), current_index := 0\<rparr>\<rparr>)))"
    (is "quiet st (snd (clean_expired_warnings cfg env ?st3))") for P
  proof -
    have "no_insert (warning_buffer st2) ((warning_buffer st2)
                 \<lparr>buffer := filter P (buffer (warning_buffer st2)), current_index := 0\<rparr>)"
      by (rule no_insert_filter) simp
    then have "quiet st ?st3"
      by (rule quiet_wb [OF q2])
    then show ?thesis
      by (rule quiet_trans) (rule quiet_sweep)
  qed
  have q5: "quiet st (st4\<lparr>warning_buffer := wb5\<rparr>)"
    if "quiet st st4" and "get_next (warning_buffer st4) = (n2, wb5)" for st4 n2 wb5
    using that by (auto intro: quiet_wb no_insert_get_next_fst)
  show ?thesis
    unfolding on_scroll_completed_def Let_def st1_def [symmetric]
    using q1 q2 q4 q5
    by (auto simp: g st2_def split: prod.splits option.splits)
qed

lemma quiet_scroll_completed: "quiet st (scroll_completed cfg env st)"
  unfolding scroll_completed_def
  using quiet_on_scroll_completed
    [of "st\<lparr>scrolling_text := (scrolling_text st)\<lparr>is_scrolling := False\<rparr>\<rparr>" cfg env]
  by simp

lemma quiet_cancel_jma: "quiet st (cancel_jma cfg env s eid st)"
proof -
  let ?wb = "warning_buffer st"
  let ?kept = "filter (\<lambda>msg. \<not> (source msg = ''jma'' \<and> event_id msg = eid)) (buffer ?wb)"
  let ?wb1 = "?wb\<lparr>buffer := ?kept,
                   current_index := (if current_index ?wb \<ge> int (length ?kept) then 0
                                     else current_index ?wb)\<rparr>"
  have "no_insert ?wb ?wb1"
    by (rule no_insert_filter) simp
  then have q1: "quiet st (st\<lparr>warning_buffer := ?wb1\<rparr>)"
    by (rule quiet_warning_buffer)
  have q2: "quiet st (st'\<lparr>warning_buffer := wb2\<rparr>)"
    if "quiet st st'" and "get_next (warning_buffer st') = (n, wb2)" for st' n wb2
    using that by (auto intro: quiet_wb no_insert_get_next_fst)
  have q3: "quiet st (show_cancellation_notice cfg s c (st\<lparr>warning_buffer := ?wb1\<rparr>))" for c
    using q1 by simp
  show ?thesis
    unfolding cancel_jma_def Let_def
    using q1 q3 by (auto split: prod.splits option.splits intro!: q2)
qed

lemma quiet_on_message_received: "quiet st (on_message_received cfg env s d st)"
  unfolding on_message_received_def Let_def
  by (auto simp: quiet_cancel_jma split: option.splits prod.splits)

lemma quiet_update_object_iff:
  assumes "\<And>m. oid (f m) = oid m \<and> source (f m) = source m \<and> event_id (f m) = event_id m"
  shows "quiet st (update_object i f st') = quiet st st'"
  using idents_update_object [of f i st', OF assms] by (simp add: quiet_def no_insert_def)

lemma quiet_update_message_image_path: "quiet st (update_message_image_path c m p st)"
  unfolding update_message_image_path_def Let_def
  by (simp add: quiet_update_object_iff split: option.splits)

lemma quiet_on_config_changed: "quiet st (on_config_changed cfg st)"
  unfolding on_config_changed_def Let_def
  by (simp add: quiet_update_object_iff split: option.splits prod.splits)

lemma inv_batch_wb:
  "batch_replace_by_source (warning_buffer st) ms = Inr (rs, wb1) \<Longrightarrow> arbiter_inv st
     \<Longrightarrow> arbiter_inv (st\<lparr>warning_buffer := wb1\<rparr>)"
  by (auto simp: arbiter_inv_def dest: batch_Inr)

lemma inv_batch_rb:
  "batch_replace_by_source (report_buffer st) ms = Inr (rs, rb1) \<Longrightarrow> arbiter_inv st
     \<Longrightarrow> arbiter_inv (st\<lparr>report_buffer := rb1\<rparr>)"
  by (auto simp: arbiter_inv_def dest: batch_Inr)

lemma inv_process_warning_messages:
  assumes "process_warning_messages env ws st = Inr st'" and "arbiter_inv st"
  shows "arbiter_inv st'"
proof -
  from assms(1) obtain rs wb1 where
    b: "batch_replace_by_source (warning_buffer st) ws = Inr (rs, wb1)"
    by (auto simp: process_warning_messages_def split: sum.splits)
  define st1 where "st1 = st\<lparr>warning_buffer := wb1\<rparr>"
  have i1: "arbiter_inv st1"
    unfolding st1_def by (rule inv_batch_wb [OF b assms(2)])
  have "quiet st1 st'"
    using assms(1) b
    by (auto simp: process_warning_messages_def Let_def st1_def [symmetric]
             split: list.splits option.splits if_splits)
  then show ?thesis
    using i1 by (rule quiet_inv)
qed

lemma inv_process_report_messages:
  assumes "process_report_messages ms nw st = Inr (f, st')" and "arbiter_inv st"
  shows "arbiter_inv st'"
proof -
  from assms(1) obtain rs rb1 where
    b: "batch_replace_by_source (report_buffer st) ms = Inr (rs, rb1)"
    by (auto simp: process_report_messages_def Let_def split: sum.splits)
  have i1: "arbiter_inv (st\<lparr>report_buffer := rb1\<rparr>)"
    by (rule inv_batch_rb [OF b assms(2)])
  have "quiet (st\<lparr>report_buffer := rb1\<rparr>) st'"
    using assms(1) b
    by (auto simp: process_report_messages_def Let_def quiet_def no_insert_def)
  then show ?thesis
    using i1 by (rule quiet_inv)
qed

lemma inv_queue [simp]: "arbiter_inv (st\<lparr>message_queue := q\<rparr>) = arbiter_inv st"
  by (simp add: arbiter_inv_def)

lemma inv_process_messages:
  assumes "arbiter_inv st"
  shows "arbiter_inv (snd (process_messages cfg env st))"
proof -
  let ?st0 = "st\<lparr>message_queue := drop 5 (message_queue st)\<rparr>"
  have i0: "arbiter_inv ?st0" using assms by simp
  have w: "arbiter_inv st1" if "process_warning_messages env ws ?st0 = Inr st1" for ws st1
    using that i0 by (rule inv_process_warning_messages)
  have r: "arbiter_inv st2" if "process_report_messages ms nw st1 = Inr (f, st2)" and "arbiter_inv st1"
    for ms nw st1 f st2
    using that by (rule inv_process_report_messages)
  show ?thesis
    unfolding process_messages_def Let_def
    using i0 by (auto split: sum.splits if_splits dest: w r)
qed

lemma ops_add_empty:
  assumes "buffer b = []" and "add b m = Inr b'"
  shows "one_per_source b'"
proof -
  from assms obtain b1 where e: "evict_if_full b = Inr b1" and b': "b' = sort_if_priority (append_new b1 m)"
    by (auto simp: add_def split: sum.splits)
  from evict_if_full_Inr [OF e] assms(1) have "buffer b1 = []" by auto
  then have "one_per_source (append_new b1 m)"
    by (simp add: append_new_def one_per_source_def srcs_def)
  then show ?thesis by (simp add: b')
qed

lemma inv_delayed_startup: "arbiter_inv (delayed_startup cfg env MainWindow_init)"
proof -
  have e: "buffer (report_buffer MainWindow_init) = []"
    by (simp add: MainWindow_init_def MessageBuffer_init_def)
  have i: "arbiter_inv MainWindow_init"
    by (simp add: arbiter_inv_def one_per_source_def srcs_def MainWindow_init_def MessageBuffer_init_def)
  show ?thesis
    using i ops_add_empty [OF e]
    by (auto simp: delayed_startup_def Let_def arbiter_inv_def split: sum.splits)
qed

lemma reachable_inv: "reachable st \<Longrightarrow> arbiter_inv st"
proof (induction rule: reachable.induct)
  case (start cfg env)
  show ?case by (rule inv_delayed_startup)
next
  case (received st cfg env source_name data)
  then show ?case by (blast intro: quiet_inv quiet_on_message_received)
next
  case (tick st cfg env)
  then show ?case by (blast intro: inv_process_messages)
next
  case (scrolled st cfg env)
  then show ?case by (blast intro: quiet_inv quiet_scroll_completed)
next
  case (timer st)
  have "quiet st (switch_to_report_mode st)" by simp
  with timer show ?case by (blast intro: quiet_inv)
next
  case (image st cached message path)
  then show ?case by (blast intro: quiet_inv quiet_update_message_image_path)
next
  case (config st cfg)
  then show ?case by (blast intro: quiet_inv quiet_on_config_changed)
qed

lemma message_add_order_sort_by_priority [simp]:
  "message_add_order (sort_by_priority b) = message_add_order b"
  by (simp add: sort_by_priority_def Let_def split: option.splits)

lemma replace_in_place:
  assumes fi: "find_index (\<lambda>e. source message = source e) (buffer b) = Some i"
    and tok: "message_add_order b (oid (buffer b ! i)) = Some t"
    and d: "distinct (map oid (buffer b))"
    and fresh: "oid message \<notin> oid ` set (buffer b)"
    and up: "use_priority b"
    and srt: "sorted (map (sort_key_of b) (buffer b))"
  shows "\<exists>b2. batch_replace_by_source b [message] = Inr ([True], b2) \<and>
              buffer b2 = (buffer b)[i := keep_image_path message (buffer b ! i)] \<and>
              message_add_order b2 (oid message) = Some t"
proof -
  let ?xs = "buffer b"
  let ?old = "?xs ! i"
  let ?entry = "keep_image_path message ?old"
  let ?b1 = "(carry_add_order b (oid ?old) (oid message))\<lparr>buffer := ?xs[i := ?entry]\<rparr>"
  from find_index_Some [OF fi] have i: "i < length ?xs" and src: "source message = source ?old"
    by auto
  have ne: "oid message \<noteq> oid ?old"
    using fresh i by (metis image_eqI nth_mem)
  have mo: "message_add_order ?b1 = ((message_add_order b)(oid message \<mapsto> t))(oid ?old := None)"
    using tok by (simp add: carry_add_order_def)
  have e: "oid ?entry = oid message" "source ?entry = source message"
    by (simp_all add: keep_image_path_def)
  have keys: "map (sort_key_of ?b1) (?xs[i := ?entry]) = map (sort_key_of b) ?xs"
  proof (rule nth_equalityI)
    show "length (map (sort_key_of ?b1) (?xs[i := ?entry])) = length (map (sort_key_of b) ?xs)"
      by simp
  next
    fix j
    assume "j < length (map (sort_key_of ?b1) (?xs[i := ?entry]))"
    then have j: "j < length ?xs" by simp
    show "map (sort_key_of ?b1) (?xs[i := ?entry]) ! j = map (sort_key_of b) ?xs ! j"
    proof (cases "j = i")
      case True
      then show ?thesis
        using i ne tok src by (simp add: sort_key_of_def mo e)
    next
      case False
      have "oid (?xs ! j) \<noteq> oid ?old"
        using d i j False by (simp add: distinct_conv_nth)
      moreover have "oid (?xs ! j) \<noteq> oid message"
        using fresh j by (metis image_eqI nth_mem)
      ultimately show ?thesis
        using j False by (simp add: sort_key_of_def mo)
    qed
  qed
  have s: "brs_step b message = Inr (True, ?b1)"
    using fi by (simp add: brs_step_def Let_def)
  have u: "unique_messages [message] = [message]"
    by (simp add: unique_messages_def source_to_latest_msg_def latest_step_def)
  have "sort_key (sort_key_of ?b1) (?xs[i := ?entry]) = ?xs[i := ?entry]"
    by (rule sort_key_id_if_sorted) (simp only: keys srt)
  then have "buffer (sort_if_priority ?b1) = ?xs[i := ?entry]"
    using up by (simp add: sort_if_priority_def buffer_sort_by_priority)
  moreover have "message_add_order (sort_if_priority ?b1) (oid message) = Some t"
    using ne by (simp add: sort_if_priority_def mo)
  ultimately show ?thesis
    by (simp add: batch_replace_by_source_def u s Let_def)
qed

text \<open>
  Claim C6. In every reachable state of the arbiter, no two entries of the warning
  buffer, and no two entries of the report buffer, have the same source. And a message
  whose source is present replaces the entry of that source at its index and takes over
  its insertion-order token (for a new object, in a sorted buffer of distinct objects
  that records the token of the entry).
\<close>

theorem C6_one_message_per_source:
  "(reachable st \<longrightarrow>
      distinct (map source (buffer (warning_buffer st))) \<and>
      distinct (map source (buffer (report_buffer st)))) \<and>
   (find_index (\<lambda>existing_msg. source message = source existing_msg) (buffer b) = Some i \<and>
    message_add_order b (oid (buffer b ! i)) = Some t \<and>
    distinct (map oid (buffer b)) \<and> oid message \<notin> oid ` set (buffer b) \<and>
    use_priority b \<and> sorted (map (sort_key_of b) (buffer b)) \<longrightarrow>
      (\<exists>b2. batch_replace_by_source b [message] = Inr ([True], b2) \<and>
            buffer b2 = (buffer b)[i := keep_image_path message (buffer b ! i)] \<and>
            message_add_order b2 (oid message) = Some t))"
proof (intro conjI impI)
  assume "reachable st"
  then have "arbiter_inv st" by (rule reachable_inv)
  then show "distinct (map source (buffer (warning_buffer st)))"
    and "distinct (map source (buffer (report_buffer st)))"
    by (simp_all add: arbiter_inv_def one_per_source_def srcs_def)
next
  assume "find_index (\<lambda>existing_msg. source message = source existing_msg) (buffer b) = Some i \<and>
    message_add_order b (oid (buffer b ! i)) = Some t \<and>
    distinct (map oid (buffer b)) \<and> oid message \<notin> oid ` set (buffer b) \<and>
    use_priority b \<and> sorted (map (sort_key_of b) (buffer b))"
  then show "\<exists>b2. batch_replace_by_source b [message] = Inr ([True], b2) \<and>
            buffer b2 = (buffer b)[i := keep_image_path message (buffer b ! i)] \<and>
            message_add_order b2 (oid message) = Some t"
    by (blast intro: replace_in_place)
qed

lemma reachable_init: "reachable MainWindow_init"
proof -
  have "reachable (delayed_startup cfg0 (env_at 0) MainWindow_init)"
    by (rule reachable.start)
  then show ?thesis by (simp add: delayed_startup_def cfg0_def)
qed

text \<open>
  The state after a warning of sa is received and processed is reachable; and a second
  report of cenc replaces the first at index 1 of the buffer of scenario B, with its
  token 2.
\<close>

theorem C6_one_message_per_source_witness:
  "distinct (map source (buffer (warning_buffer
      (snd (process_messages cfg0 (env_at 20)
         (on_message_received cfg0 (env_at 10) ''sa'' ev_sa MainWindow_init)))))) \<and>
   distinct (map source (buffer (report_buffer
      (snd (process_messages cfg0 (env_at 20)
         (on_message_received cfg0 (env_at 10) ''sa'' ev_sa MainWindow_init)))))) \<and>
   (\<exists>b2. batch_replace_by_source (rr_buffer None) [rep_c2] = Inr ([True], b2) \<and>
         buffer b2 = [rep_w, rep_c2, rep_u] \<and> message_add_order b2 9 = Some 2)"
proof -
  have r: "reachable (snd (process_messages cfg0 (env_at 20)
             (on_message_received cfg0 (env_at 10) ''sa'' ev_sa MainWindow_init)))"
    by (intro reachable.tick reachable.received reachable_init)
  have k: "map (sort_key_of (rr_buffer None)) (buffer (rr_buffer None))
             = [(1, enat 3), (2, enat 2), (10, enat 1)]"
    by (simp add: rr_defs sort_key_of_def)
  have h: "find_index (\<lambda>existing_msg. source rep_c2 = source existing_msg) (buffer (rr_buffer None)) = Some 1 \<and>
    message_add_order (rr_buffer None) (oid (buffer (rr_buffer None) ! 1)) = Some 2 \<and>
    distinct (map oid (buffer (rr_buffer None))) \<and> oid rep_c2 \<notin> oid ` set (buffer (rr_buffer None)) \<and>
    use_priority (rr_buffer None) \<and> sorted (map (sort_key_of (rr_buffer None)) (buffer (rr_buffer None)))"
    unfolding k by (simp add: rr_defs rep_c2_def)
  show ?thesis
    using C6_one_message_per_source
      [of "snd (process_messages cfg0 (env_at 20)
             (on_message_received cfg0 (env_at 10) ''sa'' ev_sa MainWindow_init))"
          rep_c2 "rr_buffer None" 1 2] r h
    by (simp add: keep_image_path_def rep_c2_def new_item_def)
       (simp add: rr_defs)
qed

subsection \<open>Round robin\<close>

lemma find_index_distinct:
  assumes "distinct (map f xs)" and "j < length xs"
  shows "find_index (\<lambda>x. f x = f (xs ! j)) xs = Some j"
  using assms
proof (induction xs arbitrary: j)
  case Nil
  then show ?case by simp
next
  case (Cons x xs)
  show ?case
  proof (cases j)
    case 0
    then show ?thesis by simp
  next
    case (Suc k)
    with Cons.prems have k: "k < length xs" and d: "distinct (map f xs)"
      and nx: "f x \<notin> f ` set xs" by auto
    from k nx have "f x \<noteq> f (xs ! k)" by (metis image_eqI nth_mem)
    with Cons.IH [OF d k] Suc show ?thesis by simp
  qed
qed

lemma sort_key_of_cong:
  "message_add_order b' = message_add_order b \<Longrightarrow> sort_key_of b' = sort_key_of b"
  by (rule ext) (simp add: sort_key_of_def)

lemma current_displaying_msg_id_sort_by_priority [simp]:
  "current_displaying_msg_id (sort_by_priority b) = current_displaying_msg_id b"
  by (simp add: sort_by_priority_def Let_def split: option.splits)

lemma use_priority_sort_by_priority [simp]:
  "use_priority (sort_by_priority b) = use_priority b"
  by (simp add: sort_by_priority_def Let_def split: option.splits)

lemma start_index_less: "buffer b \<noteq> [] \<Longrightarrow> start_index b < length (buffer b)"
  by (simp add: start_index_def Let_def split: option.splits)

lemma get_next_priority_eq:
  assumes "use_priority b" and "buffer b \<noteq> []"
  shows "get_next b =
      (Some (sort_key (sort_key_of b) (buffer b) ! start_index b),
       (sort_by_priority b)
         \<lparr>current_index := int (start_index b),
          current_displaying_msg_id :=
            Some (oid (sort_key (sort_key_of b) (buffer b) ! start_index b))\<rparr>)"
proof -
  have "start_index b < length (sort_key (sort_key_of b) (buffer b))"
    using start_index_less [OF assms(2)] by simp
  then have dead: "\<not> length (sort_key (sort_key_of b) (buffer b)) \<le> start_index b"
    by simp
  have "get_next b = get_next_by_priority b"
    using assms by (simp add: get_next_def)
  also have "\<dots> = (let s = sort_key (sort_key_of b) (buffer b); k = start_index b;
                        k' = (if k \<ge> length s then 0 else k)
                    in (Some (s ! k'),
                        (sort_by_priority b)\<lparr>current_index := int k',
                            current_displaying_msg_id := Some (oid (s ! k'))\<rparr>))"
    using assms(2)
    unfolding get_next_by_priority_def start_index_def Let_def buffer_sort_by_priority
      current_displaying_msg_id_sort_by_priority
    by simp
  finally show ?thesis
    using dead by (simp add: Let_def)
qed

lemma get_next_priority:
  assumes "use_priority b" and "buffer b \<noteq> []"
  shows "fst (get_next b) = Some (sort_key (sort_key_of b) (buffer b) ! start_index b)"
    and "buffer (snd (get_next b)) = sort_key (sort_key_of b) (buffer b)"
    and "message_add_order (snd (get_next b)) = message_add_order b"
    and "use_priority (snd (get_next b))"
    and "current_displaying_msg_id (snd (get_next b))
           = Some (oid (sort_key (sort_key_of b) (buffer b) ! start_index b))"
  using assms(1)
  by (simp_all add: get_next_priority_eq [OF assms] buffer_sort_by_priority)

text \<open>A buffer in the middle of a pass over the sorted list s, the entry at k on display.\<close>

lemma get_next_step:
  assumes "use_priority b" and "buffer b = s" and "s \<noteq> []"
    and "sorted (map (sort_key_of b) s)" and "distinct (map oid s)"
    and "current_displaying_msg_id b = Some (oid (s ! k))" and "k < length s"
  shows "fst (get_next b) = Some (s ! ((k + 1) mod length s))"
    and "buffer (snd (get_next b)) = s"
    and "message_add_order (snd (get_next b)) = message_add_order b"
    and "use_priority (snd (get_next b))"
    and "current_displaying_msg_id (snd (get_next b)) = Some (oid (s ! ((k + 1) mod length s)))"
proof -
  have ss: "sort_key (sort_key_of b) (buffer b) = s"
    using assms(2,4) by (simp add: sort_key_id_if_sorted)
  have "find_index (\<lambda>msg. oid msg = oid (s ! k)) s = Some k"
    by (rule find_index_distinct [OF assms(5,7)])
  then have si: "start_index b = (k + 1) mod length s"
    using assms(6) by (simp add: start_index_def ss)
  have ne: "buffer b \<noteq> []" using assms(2,3) by simp
  note g = get_next_priority [OF assms(1) ne, unfolded ss si]
  show "fst (get_next b) = Some (s ! ((k + 1) mod length s))" by (rule g(1))
  show "buffer (snd (get_next b)) = s" by (rule g(2))
  show "message_add_order (snd (get_next b)) = message_add_order b" by (rule g(3))
  show "use_priority (snd (get_next b))" by (rule g(4))
  show "current_displaying_msg_id (snd (get_next b)) = Some (oid (s ! ((k + 1) mod length s)))"
    by (rule g(5))
qed

lemma get_next_n_pass:
  assumes "use_priority b" and "buffer b = s" and "s \<noteq> []"
    and "sorted (map (sort_key_of b) s)" and "distinct (map oid s)"
    and "current_displaying_msg_id b = Some (oid (s ! k))" and "k < length s"
  shows "fst (get_next_n n b) = map (\<lambda>t. Some (s ! ((k + 1 + t) mod length s))) [0..<n]"
  using assms
proof (induction n arbitrary: b k)
  case 0
  then show ?case by simp
next
  case (Suc n)
  let ?b1 = "snd (get_next b)"
  let ?k1 = "(k + 1) mod length s"
  note st = get_next_step [OF Suc.prems]
  have k1: "?k1 < length s" using Suc.prems(3) by simp
  have srt: "sorted (map (sort_key_of ?b1) s)"
    using Suc.prems(4) sort_key_of_cong [OF st(3)] by simp
  have ih: "fst (get_next_n n ?b1) = map (\<lambda>t. Some (s ! ((?k1 + 1 + t) mod length s))) [0..<n]"
    by (rule Suc.IH [OF st(4) st(2) Suc.prems(3) srt Suc.prems(5) st(5) k1])
  have m: "(?k1 + 1 + t) mod length s = (k + 1 + Suc t) mod length s" for t
    using mod_add_left_eq [of "k + 1" "length s" "1 + t"] by (simp add: ac_simps)
  have "fst (get_next_n (Suc n) b) = fst (get_next b) # fst (get_next_n n ?b1)"
    by (simp add: Let_def split: prod.splits)
  also have "\<dots> = Some (s ! ?k1) # map (\<lambda>t. Some (s ! ((k + 1 + Suc t) mod length s))) [0..<n]"
    by (simp only: st(1) ih m)
  also have "\<dots> = map (\<lambda>t. Some (s ! ((k + 1 + t) mod length s))) [0..<Suc n]"
    by (simp add: upt_conv_Cons map_Suc_upt [symmetric] del: upt_Suc)
  finally show ?case .
qed

lemma distinct_map_mset:
  "mset xs = mset ys \<Longrightarrow> distinct (map f xs) = distinct (map f ys)"
proof -
  assume "mset xs = mset ys"
  then have "mset (map f xs) = mset (map f ys)" by (metis mset_map)
  then show ?thesis by (rule mset_eq_imp_distinct_iff)
qed

lemma start_index_located:
  assumes "distinct (map oid (buffer b))"
    and "j < length (buffer b)"
    and "current_displaying_msg_id b = Some (oid (sort_key (sort_key_of b) (buffer b) ! j))"
  shows "start_index b = (j + 1) mod length (buffer b)"
proof -
  let ?s = "sort_key (sort_key_of b) (buffer b)"
  have d: "distinct (map oid ?s)"
    using assms(1) distinct_map_mset [of ?s "buffer b" oid] by simp
  have "find_index (\<lambda>x. oid x = oid (?s ! j)) ?s = Some j"
    by (rule find_index_distinct [OF d]) (simp add: assms(2))
  then show ?thesis
    using assms(3) by (simp add: start_index_def)
qed

lemma start_index_unlocated:
  assumes "case current_displaying_msg_id b of None \<Rightarrow> True
           | Some i \<Rightarrow> i \<notin> oid ` set (buffer b)"
  shows "start_index b = 0"
proof (cases "current_displaying_msg_id b")
  case None
  then show ?thesis by (simp add: start_index_def)
next
  case (Some i)
  with assms have "\<forall>x\<in>set (sort_key (sort_key_of b) (buffer b)). \<not> oid x = i"
    by auto
  then have "find_index (\<lambda>msg. oid msg = i) (sort_key (sort_key_of b) (buffer b)) = None"
    by (simp only: find_index_None)
  with Some show ?thesis by (simp add: start_index_def)
qed

lemma get_next_n_full_pass:
  assumes up: "use_priority b" and ne: "buffer b \<noteq> []" and d: "distinct (map oid (buffer b))"
  shows "fst (get_next_n (length (buffer b)) b)
           = map Some (rotate (start_index b) (sort_key (sort_key_of b) (buffer b)))"
proof -
  let ?s = "sort_key (sort_key_of b) (buffer b)"
  let ?k = "start_index b"
  let ?b1 = "snd (get_next b)"
  obtain m where n: "length (buffer b) = Suc m"
    using ne by (cases "buffer b") auto
  have sne: "?s \<noteq> []" using ne by (metis length_sort length_0_conv)
  have ls: "length ?s = Suc m" using n by simp
  have kl: "?k < length ?s" using start_index_less [OF ne] by simp
  have ds: "distinct (map oid ?s)"
    using d distinct_map_mset [of ?s "buffer b" oid] by simp
  note g = get_next_priority [OF up ne]
  have srt: "sorted (map (sort_key_of ?b1) ?s)"
    using sort_key_of_cong [OF g(3)] by (simp add: sorted_sort_key)
  have rest: "fst (get_next_n m ?b1) = map (\<lambda>t. Some (?s ! ((?k + 1 + t) mod length ?s))) [0..<m]"
    by (rule get_next_n_pass [OF g(4) g(2) sne srt ds g(5) kl])
  have "fst (get_next_n (Suc m) b) = fst (get_next b) # fst (get_next_n m ?b1)"
    by (simp add: Let_def split: prod.splits)
  also have "\<dots> = Some (?s ! ?k) # map (\<lambda>t. Some (?s ! ((?k + Suc t) mod length ?s))) [0..<m]"
    by (simp only: g(1) rest add_Suc_right add_Suc One_nat_def add_0_right add_0)
  also have "\<dots> = map (\<lambda>t. Some (?s ! ((?k + t) mod length ?s))) [0..<Suc m]"
    using kl by (simp add: upt_conv_Cons map_Suc_upt [symmetric] del: upt_Suc)
  also have "\<dots> = map Some (rotate ?k ?s)"
    by (rule nth_equalityI) (simp_all add: n nth_rotate del: upt_Suc)
  finally show ?thesis by (simp add: n)
qed

lemma sorted_rr: "sort_key (sort_key_of (rr_buffer cur)) (buffer (rr_buffer cur)) = [rep_w, rep_c, rep_u]"
  by (simp add: rr_defs sort_key_of_def)

lemma start_rr1: "start_index (rr_buffer (Some 1)) = 1"
  unfolding start_index_def Let_def sorted_rr
  by (simp add: rr_defs)

lemma start_rr0: "start_index (rr_buffer None) = 0"
  unfolding start_index_def Let_def sorted_rr
  by (simp add: rr_defs)

lemma keys_rr:
  "map (sort_key_of (rr_buffer cur)) [rep_c, rep_u, rep_w] = [(2, enat 2), (10, enat 1), (1, enat 3)]"
  by (simp add: rr_defs sort_key_of_def)

text \<open>
  Claim C3, as the code has it. On a priority-enabled, non-empty buffer that holds no
  object twice, \<open>get_next\<close> returns the entry of the sorted buffer at \<open>start_index\<close>:
  the one just after the displayed entry (index 0 after the last), or entry 0 when the
  displayed entry is not in the buffer. As many calls in a row as there are entries
  return every entry exactly once: the sorted entries from \<open>start_index\<close> on, then
  those before it, each of the two runs non-decreasing in (priority, add order).
\<close>

theorem C3_round_robin_cycle:
  assumes "use_priority b" and "buffer b \<noteq> []" and "distinct (map oid (buffer b))"
  shows "fst (get_next b) = Some (sort_key (sort_key_of b) (buffer b) ! start_index b) \<and>
         start_index b < length (buffer b) \<and>
         (\<forall>j<length (buffer b).
            current_displaying_msg_id b = Some (oid (sort_key (sort_key_of b) (buffer b) ! j))
            \<longrightarrow> start_index b = (j + 1) mod length (buffer b)) \<and>
         ((case current_displaying_msg_id b of
             None \<Rightarrow> True | Some i \<Rightarrow> i \<notin> oid ` set (buffer b))
            \<longrightarrow> start_index b = 0) \<and>
         fst (get_next_n (length (buffer b)) b)
           = map Some (drop (start_index b) (sort_key (sort_key_of b) (buffer b))
                       @ take (start_index b) (sort_key (sort_key_of b) (buffer b))) \<and>
         sorted (map (sort_key_of b) (drop (start_index b) (sort_key (sort_key_of b) (buffer b)))) \<and>
         sorted (map (sort_key_of b) (take (start_index b) (sort_key (sort_key_of b) (buffer b)))) \<and>
         distinct (drop (start_index b) (sort_key (sort_key_of b) (buffer b))
                   @ take (start_index b) (sort_key (sort_key_of b) (buffer b))) \<and>
         mset (drop (start_index b) (sort_key (sort_key_of b) (buffer b))
               @ take (start_index b) (sort_key (sort_key_of b) (buffer b))) = mset (buffer b)"
proof -
  let ?s = "sort_key (sort_key_of b) (buffer b)"
  let ?k = "start_index b"
  have kl: "?k < length (buffer b)" by (rule start_index_less [OF assms(2)])
  have rot: "rotate ?k ?s = drop ?k ?s @ take ?k ?s"
    using kl by (simp add: rotate_drop_take)
  have srt: "sorted (map (sort_key_of b) ?s)" by (rule sorted_sort_key)
  have ds: "distinct ?s" using assms(3) by (simp add: distinct_map)
  have "distinct (rotate ?k ?s)" using ds by simp
  then have d: "distinct (drop ?k ?s @ take ?k ?s)" by (simp only: rot)
  have "mset (drop ?k ?s @ take ?k ?s) = mset (take ?k ?s @ drop ?k ?s)"
    by (metis mset_append union_commute)
  also have "\<dots> = mset ?s" by (simp only: append_take_drop_id)
  also have "\<dots> = mset (buffer b)" by simp
  finally have m: "mset (drop ?k ?s @ take ?k ?s) = mset (buffer b)" .
  have s1: "sorted (map (sort_key_of b) (drop ?k ?s))"
    using srt by (simp add: drop_map [symmetric] sorted_wrt_drop)
  have s2: "sorted (map (sort_key_of b) (take ?k ?s))"
    using srt by (simp add: take_map [symmetric] sorted_wrt_take)
  have p: "fst (get_next_n (length (buffer b)) b) = map Some (drop ?k ?s @ take ?k ?s)"
    using get_next_n_full_pass [OF assms] by (simp only: rot)
  show ?thesis
    using get_next_priority(1) [OF assms(1,2)] kl start_index_located [OF assms(3)]
      start_index_unlocated [of b] p s1 s2 d m
    by blast
qed

text \<open>
  Scenario B: from a fresh buffer the pass is weatheralarm, cenc, usgs; with
  weatheralarm on display it is cenc, usgs, weatheralarm.
\<close>

theorem C3_round_robin_cycle_witness:
  "fst (get_next (rr_buffer None)) = Some rep_w \<and>
   fst (get_next_n 3 (rr_buffer None)) = [Some rep_w, Some rep_c, Some rep_u] \<and>
   fst (get_next (rr_buffer (Some 1))) = Some rep_c \<and>
   fst (get_next_n 3 (rr_buffer (Some 1))) = [Some rep_c, Some rep_u, Some rep_w]"
proof -
  have l: "length (buffer (rr_buffer cur)) = 3" for cur by (simp add: rr_defs)
  have h: "use_priority (rr_buffer cur)" "buffer (rr_buffer cur) \<noteq> []"
    "distinct (map oid (buffer (rr_buffer cur)))" for cur
    by (simp_all add: rr_defs)
  show ?thesis
    using C3_round_robin_cycle [OF h, of None] C3_round_robin_cycle [OF h, of "Some 1"]
    unfolding l sorted_rr start_rr0 start_rr1
    by simp
qed

text \<open>
  With the first entry on display, the next three calls return every entry once, but
  not in non-decreasing order: the pass wraps round to the top entry at its end.
\<close>

theorem C3_not_nondecreasing_counterexample:
  "fst (get_next_n 3 (rr_buffer (Some 1))) = [Some rep_c, Some rep_u, Some rep_w] \<and>
   \<not> sorted (map (sort_key_of (rr_buffer (Some 1))) [rep_c, rep_u, rep_w])"
proof -
  have l: "length (buffer (rr_buffer (Some 1))) = 3" by (simp add: rr_defs)
  have "fst (get_next_n (length (buffer (rr_buffer (Some 1)))) (rr_buffer (Some 1)))
          = map Some (rotate (start_index (rr_buffer (Some 1)))
                (sort_key (sort_key_of (rr_buffer (Some 1))) (buffer (rr_buffer (Some 1)))))"
    by (rule get_next_n_full_pass) (simp_all add: rr_defs)
  then have "fst (get_next_n 3 (rr_buffer (Some 1))) = [Some rep_c, Some rep_u, Some rep_w]"
    unfolding l sorted_rr start_rr1 by simp
  moreover have "\<not> sorted (map (sort_key_of (rr_buffer (Some 1))) [rep_c, rep_u, rep_w])"
    unfolding keys_rr by simp
  ultimately show ?thesis by simp
qed

subsection \<open>Forced interruption by a warning\<close>

lemma sort_key_head:
  assumes "sort_key f xs = y # ys"
  shows "y \<in> set xs \<and> (\<forall>x\<in>set xs. f y \<le> f x)"
proof -
  have s: "set xs = set (y # ys)" using assms by (metis set_sort)
  have "sorted (map f (y # ys))" using assms by (metis sorted_sort_key)
  then have "\<forall>x\<in>set ys. f y \<le> f x" by simp
  with s show ?thesis by auto
qed

lemma filter_head_find: "filter P xs = y # zs \<Longrightarrow> find P xs = Some y"
  by (induction xs) (auto split: if_splits)

lemma sort_key_first:
  assumes "sort_key f xs = y # ys"
  shows "find (\<lambda>x. f x = f y) xs = Some y"
proof -
  have "filter (\<lambda>x. f x = f y) xs = filter (\<lambda>x. f x = f y) (sort_key f xs)"
    by (rule sort_key_stable [symmetric])
  also have "\<dots> = y # filter (\<lambda>x. f x = f y) ys" using assms by simp
  finally show ?thesis by (rule filter_head_find)
qed

lemma stage_pending_fields [simp]:
  "scrolling_text (stage_pending ps st) = scrolling_text st"
  "warning_buffer (stage_pending ps st) = warning_buffer st"
  "report_buffer (stage_pending ps st) = report_buffer st"
  "current_display_type (stage_pending ps st) = current_display_type st"
  "message_queue (stage_pending ps st) = message_queue st"
  by (induction ps st rule: stage_pending.induct; simp split: option.splits)+

lemma process_report_messages_fields:
  assumes "process_report_messages ms nw st = Inr (f, st')"
  shows "scrolling_text st' = scrolling_text st" and "warning_buffer st' = warning_buffer st"
    and "current_display_type st' = current_display_type st"
  using assms by (auto simp: process_report_messages_def Let_def split: sum.splits)

lemma update_object_fields [simp]:
  "scrolling_text (update_object i f st) = scrolling_text st"
  "current_display_type (update_object i f st) = current_display_type st"
  "switching_to_report (update_object i f st) = switching_to_report st"
  "buffer (warning_buffer (update_object i f st))
     = map (\<lambda>m. if oid m = i then f m else m) (buffer (warning_buffer st))"
  "buffer (report_buffer (update_object i f st))
     = map (\<lambda>m. if oid m = i then f m else m) (buffer (report_buffer st))"
  by (simp_all add: update_object_def Let_def)

lemma switch_to_warning_mode_forced:
  "scrolling_text (switch_to_warning_mode env m True st)
     = (scrolling_text st)\<lparr>is_scrolling := True, current_text := text m,
          current_image_path := image_path m, current_message_type := Some (message_type m),
          current_parsed_data := parsed_data m,
          calls := calls (scrolling_text st) @ [call_of m True]\<rparr>"
  "current_display_type (switch_to_warning_mode env m True st) = Some ''warning''"
  "buffer (warning_buffer (switch_to_warning_mode env m True st))
     = map (\<lambda>x. if oid x = oid m then mark_displayed (time_time env) x else x)
         (buffer (warning_buffer st))"
  by (simp_all add: switch_to_warning_mode_def Let_def update_text_def call_of_def
        split: option.splits)

text \<open>
  What \<open>batch_replace_by_source\<close> keeps of a batch. The comparison of floats is
  irreflexive and transitive, so the message kept for a source is one that no message
  of that source in the batch exceeds in timestamp. With room for the whole batch
  nothing is evicted, and a message that is not a weather alert is stored as it is.
\<close>

lemma float_gt_irrefl: "\<not> float_gt a a"
  by (cases a) (simp_all add: float_gt_def)

lemma float_gt_trans: "float_gt a b \<Longrightarrow> float_gt b c \<Longrightarrow> float_gt a c"
  by (cases a; cases b; cases c) (simp_all add: float_gt_def)

lemma source_to_latest_msg_snoc:
  "source_to_latest_msg (ms @ [m]) = latest_step m (source_to_latest_msg ms)"
  by (simp add: source_to_latest_msg_def)

lemma source_to_latest_msg_inv:
  "distinct (map fst (source_to_latest_msg ms)) \<and>
   (\<forall>s k. map_of (source_to_latest_msg ms) s = Some k \<longrightarrow> source k = s \<and> k \<in> set ms) \<and>
   (\<forall>m\<in>set ms. \<exists>k. map_of (source_to_latest_msg ms) (source m) = Some k \<and>
        \<not> float_gt (timestamp m) (timestamp k))"
proof (induction ms rule: rev_induct)
  case Nil
  then show ?case by (simp add: source_to_latest_msg_def)
next
  case (snoc x xs)
  let ?d = "source_to_latest_msg xs"
  from snoc have d: "distinct (map fst ?d)"
    and own: "\<And>s k. map_of ?d s = Some k \<Longrightarrow> source k = s \<and> k \<in> set xs"
    and late: "\<And>m. m \<in> set xs \<Longrightarrow> \<exists>k. map_of ?d (source m) = Some k \<and>
                  \<not> float_gt (timestamp m) (timestamp k)"
    by blast+
  show ?case
  proof (cases "map_of ?d (source x)")
    case None
    then have l: "latest_step x ?d = AList.update (source x) x ?d"
      by (simp add: latest_step_def)
    have other: "source m \<noteq> source x" if "m \<in> set xs" for m
      using late [OF that] None by auto
    show ?thesis
      unfolding source_to_latest_msg_snoc l
      using d own late other
      by (auto simp: distinct_update update_conv' float_gt_irrefl)
  next
    case (Some k0)
    show ?thesis
    proof (cases "float_gt (timestamp x) (timestamp k0)")
      case True
      then have l: "latest_step x ?d = AList.update (source x) x ?d"
        using Some by (simp add: latest_step_def)
      have newer: "\<not> float_gt (timestamp m) (timestamp x)"
        if "m \<in> set xs" "source m = source x" for m
      proof
        assume "float_gt (timestamp m) (timestamp x)"
        then have "float_gt (timestamp m) (timestamp k0)" using True by (rule float_gt_trans)
        with late [OF that(1)] that(2) Some show False by simp
      qed
      show ?thesis
        unfolding source_to_latest_msg_snoc l
        using d own late newer
        by (auto simp: distinct_update update_conv' float_gt_irrefl)
    next
      case False
      then have l: "latest_step x ?d = ?d" using Some by (simp add: latest_step_def)
      show ?thesis
        unfolding source_to_latest_msg_snoc l
        using d own late Some False by auto
    qed
  qed
qed

lemma unique_messages_latest:
  "distinct (map source (unique_messages ms))"
  "k \<in> set (unique_messages ms) \<Longrightarrow> k \<in> set ms"
  "m \<in> set ms \<Longrightarrow> \<exists>k\<in>set (unique_messages ms). source k = source m \<and>
       \<not> float_gt (timestamp m) (timestamp k)"
proof -
  let ?d = "source_to_latest_msg ms"
  note inv = source_to_latest_msg_inv [of ms]
  have mem: "(s, k) \<in> set ?d \<longleftrightarrow> map_of ?d s = Some k" for s k
    using inv by (simp add: map_of_eq_Some_iff)
  have "source (snd p) = fst p" if "p \<in> set ?d" for p
  proof -
    obtain s k where p: "p = (s, k)" by (cases p)
    then have "map_of ?d s = Some k" using that mem by simp
    then have "source k = s" using inv by blast
    then show ?thesis by (simp add: p)
  qed
  then have eq: "map (source \<circ> snd) ?d = map fst ?d" by simp
  show "distinct (map source (unique_messages ms))"
    unfolding unique_messages_def map_map eq using inv by blast
  show "k \<in> set ms" if "k \<in> set (unique_messages ms)"
    using that inv mem by (auto simp: unique_messages_def)
  show "\<exists>k\<in>set (unique_messages ms). source k = source m \<and>
          \<not> float_gt (timestamp m) (timestamp k)" if "m \<in> set ms"
  proof -
    from inv that obtain k where k: "map_of ?d (source m) = Some k"
      "\<not> float_gt (timestamp m) (timestamp k)" by blast
    then have "(source m, k) \<in> set ?d" using mem by simp
    then have "k \<in> set (unique_messages ms)" by (force simp: unique_messages_def)
    moreover have "source k = source m" using inv k(1) by blast
    ultimately show ?thesis using k(2) by blast
  qed
qed


lemma length_AList_update: "length (AList.update k v al) \<le> Suc (length al)"
  by (induction al) auto

lemma length_unique_messages: "length (unique_messages ms) \<le> length ms"
proof -
  have "length (source_to_latest_msg ms) \<le> length ms"
  proof (induction ms rule: rev_induct)
    case Nil
    then show ?case by (simp add: source_to_latest_msg_def)
  next
    case (snoc x xs)
    then show ?case
      using length_AList_update [of "source x" x "source_to_latest_msg xs"]
      by (simp add: source_to_latest_msg_snoc latest_step_def split: option.splits)
  qed
  then show ?thesis by (simp add: unique_messages_def)
qed

lemma brs_step_keeps:
  assumes s: "brs_step b m = Inr (r, b1)"
    and room: "int (length (buffer b)) < max_size b"
    and nw: "message_type m \<noteq> ''weather''"
  shows "m \<in> set (buffer b1)"
    and "length (buffer b1) \<le> Suc (length (buffer b))"
    and "\<And>x. x \<in> set (buffer b) \<Longrightarrow> source x \<noteq> source m \<Longrightarrow> x \<in> set (buffer b1)"
proof -
  have k: "keep_image_path m e = m" for e using nw by (simp add: keep_image_path_def)
  show "m \<in> set (buffer b1)"
    using s room
    by (auto simp: brs_step_def Let_def k evict_if_full_def append_new_def set_update_memI
          split: option.splits dest: find_index_Some)
  show "length (buffer b1) \<le> Suc (length (buffer b))"
    using s room
    by (auto simp: brs_step_def Let_def k evict_if_full_def append_new_def split: option.splits)
  show "x \<in> set (buffer b1)" if x: "x \<in> set (buffer b)" "source x \<noteq> source m" for x
  proof (cases "find_index (\<lambda>existing_msg. source m = source existing_msg) (buffer b)")
    case None
    then show ?thesis
      using s room x by (auto simp: brs_step_def evict_if_full_def append_new_def)
  next
    case (Some i)
    from find_index_Some [OF Some] have i: "i < length (buffer b)" "source m = source (buffer b ! i)"
      by auto
    from x(1) obtain j where j: "j < length (buffer b)" "buffer b ! j = x"
      by (auto simp: in_set_conv_nth)
    with i x(2) have "j \<noteq> i" by auto
    then have "(buffer b)[i := m] ! j = x" using j by simp
    then have "x \<in> set ((buffer b)[i := m])" using j(1) by (metis length_list_update nth_mem)
    then show ?thesis using s Some by (auto simp: brs_step_def Let_def k)
  qed
qed

lemma brs_loop_keeps:
  assumes "brs_loop b ms = Inr (rs, b1)"
    and "distinct (map source ms)"
    and "int (length (buffer b)) + int (length ms) \<le> max_size b"
    and "\<forall>m\<in>set ms. message_type m \<noteq> ''weather''"
  shows "set ms \<subseteq> set (buffer b1) \<and>
         (\<forall>x\<in>set (buffer b). source x \<notin> source ` set ms \<longrightarrow> x \<in> set (buffer b1))"
  using assms
proof (induction ms arbitrary: b rs)
  case Nil
  then show ?case by simp
next
  case (Cons m ms)
  from Cons.prems(1) obtain r b0 rs0 where
    s: "brs_step b m = Inr (r, b0)" and l: "brs_loop b0 ms = Inr (rs0, b1)"
    by (auto split: sum.splits)
  have room: "int (length (buffer b)) < max_size b" using Cons.prems(3) by simp
  have nw: "message_type m \<noteq> ''weather''" using Cons.prems(4) by simp
  note st = brs_step_keeps [OF s room nw]
  have ms0: "max_size b0 = max_size b" using brs_step_Inr [OF s] by simp
  have ih: "set ms \<subseteq> set (buffer b1) \<and>
            (\<forall>x\<in>set (buffer b0). source x \<notin> source ` set ms \<longrightarrow> x \<in> set (buffer b1))"
    using Cons.prems st(2) by (intro Cons.IH [OF l]) (auto simp: ms0)
  have "m \<in> set (buffer b1)" using ih st(1) Cons.prems(2) by auto
  moreover have "x \<in> set (buffer b1)"
    if "x \<in> set (buffer b)" "source x \<notin> source ` set (m # ms)" for x
    using ih st(3) [of x] that by auto
  ultimately show ?case using ih by auto
qed

lemma batch_latest:
  assumes b: "batch_replace_by_source b ms = Inr (rs, b1)"
    and room: "int (length (buffer b)) + int (length ms) \<le> max_size b"
    and nw: "\<forall>m\<in>set ms. message_type m \<noteq> ''weather''"
    and m: "m \<in> set ms"
  shows "\<exists>k\<in>set (buffer b1). k \<in> set ms \<and> source k = source m \<and>
           \<not> float_gt (timestamp m) (timestamp k)"
proof -
  from b obtain urs b0 where l: "brs_loop b (unique_messages ms) = Inr (urs, b0)"
    and b1: "b1 = sort_if_priority b0"
    by (auto simp: batch_replace_by_source_def Let_def split: sum.splits)
  have "set (unique_messages ms) \<subseteq> set (buffer b0)"
    using brs_loop_keeps [OF l unique_messages_latest(1)] room nw
      length_unique_messages [of ms] unique_messages_latest(2) [of _ ms]
    by auto
  moreover have "set (buffer b1) = set (buffer b0)"
    unfolding b1 by (metis mset_buffer_sort_if_priority set_mset_mset)
  ultimately show ?thesis
    using unique_messages_latest(3) [OF m] unique_messages_latest(2) [of _ ms] by blast
qed

text \<open>
  The tick with the results of its two calls named: \<open>batch_replace_by_source\<close> returns
  the buffer \<open>wb1\<close>, and \<open>sorted(...)\<close> puts the warning \<open>fw\<close> first.
\<close>

lemma tick_forced:
  assumes mode: "current_display_type st = Some ''report'' \<or> current_display_type st = None"
    and ws: "warning_messages = filter (\<lambda>m. message_type m = ''warning'') (take 5 (message_queue st))"
    and b: "batch_replace_by_source (warning_buffer st) warning_messages = Inr (results, wb1)"
    and srt: "sort_key (\<lambda>m. get_source_priority (source m)) warning_messages = fw # rest"
  shows "process_warning_messages env warning_messages
             (st\<lparr>message_queue := drop 5 (message_queue st)\<rparr>)
           = Inr (switch_to_warning_mode env fw True
                    (st\<lparr>message_queue := drop 5 (message_queue st), warning_buffer := wb1\<rparr>))"
    and "buffer (warning_buffer (snd (process_messages cfg env st)))
           = map (\<lambda>m. if oid m = oid fw then mark_displayed (time_time env) m else m) (buffer wb1)"
    and "calls (scrolling_text (snd (process_messages cfg env st)))
           = calls (scrolling_text st) @ [call_of fw True]"
    and "current_text (scrolling_text (snd (process_messages cfg env st))) = text fw"
    and "current_display_type (snd (process_messages cfg env st)) = Some ''warning''"
proof -
  let ?st0 = "st\<lparr>message_queue := drop 5 (message_queue st)\<rparr>"
  let ?st2 = "switch_to_warning_mode env fw True (?st0\<lparr>warning_buffer := wb1\<rparr>)"
  have ne: "warning_messages \<noteq> []" using srt by auto
  show pw: "process_warning_messages env warning_messages ?st0 = Inr ?st2"
    using mode b srt by (auto simp: process_warning_messages_def Let_def)
  have f2: "buffer (warning_buffer ?st2)
              = map (\<lambda>m. if oid m = oid fw then mark_displayed (time_time env) m else m) (buffer wb1)"
    "calls (scrolling_text ?st2) = calls (scrolling_text st) @ [call_of fw True]"
    "current_text (scrolling_text ?st2) = text fw"
    "current_display_type ?st2 = Some ''warning''"
    by (simp_all add: switch_to_warning_mode_forced)
  have fin: "scrolling_text (snd (process_messages cfg env st)) = scrolling_text ?st2 \<and>
             warning_buffer (snd (process_messages cfg env st)) = warning_buffer ?st2 \<and>
             current_display_type (snd (process_messages cfg env st)) = current_display_type ?st2"
    using ne pw
    by (auto simp: process_messages_def Let_def ws [symmetric]
             split: sum.splits dest: process_report_messages_fields)
  show "buffer (warning_buffer (snd (process_messages cfg env st)))
           = map (\<lambda>m. if oid m = oid fw then mark_displayed (time_time env) m else m) (buffer wb1)"
    and "calls (scrolling_text (snd (process_messages cfg env st)))
           = calls (scrolling_text st) @ [call_of fw True]"
    and "current_text (scrolling_text (snd (process_messages cfg env st))) = text fw"
    and "current_display_type (snd (process_messages cfg env st)) = Some ''warning''"
    using f2 fin by simp_all
qed

text \<open>
  Claim C1. In a tick that finds warnings among the messages it takes from the queue,
  with the display mode report or idle and room in the warning buffer for the warnings
  of the tick, the arbiter first runs \<open>batch_replace_by_source\<close> on the warning buffer.
  Afterwards the buffer holds, for every warning of the tick, a warning of the tick of the
  same source that is not earlier by timestamp (the only entry of that source when the
  buffer held one message per source before). Then the arbiter switches to warning mode
  on that state: \<open>update_text\<close> is called once, with \<open>force=True\<close> and with the text of the
  first warning of the tick among those with the smallest priority number, and that
  text is what the widget shows afterwards. The warning shown is in the buffer, marked as displayed,
  when the tick holds no other warning of its source.
\<close>

theorem C1_forced_interruption:
  assumes mode: "current_display_type st = Some ''report'' \<or> current_display_type st = None"
    and ws: "warning_messages = filter (\<lambda>m. message_type m = ''warning'') (take 5 (message_queue st))"
    and ne: "warning_messages \<noteq> []"
    and room: "int (length (buffer (warning_buffer st))) + int (length warning_messages)
                 \<le> max_size (warning_buffer st)"
  shows "\<exists>first_warning results wb1.
           first_warning \<in> set warning_messages \<and>
           (\<forall>m\<in>set warning_messages.
              get_source_priority (source first_warning) \<le> get_source_priority (source m)) \<and>
           find (\<lambda>m. get_source_priority (source m) = get_source_priority (source first_warning))
               warning_messages = Some first_warning \<and>
           batch_replace_by_source (warning_buffer st) warning_messages = Inr (results, wb1) \<and>
           (\<forall>m\<in>set warning_messages.
              \<exists>k\<in>set (buffer wb1). k \<in> set warning_messages \<and> source k = source m \<and>
                 \<not> float_gt (timestamp m) (timestamp k)) \<and>
           (one_per_source (warning_buffer st) \<longrightarrow> one_per_source wb1) \<and>
           process_warning_messages env warning_messages
               (st\<lparr>message_queue := drop 5 (message_queue st)\<rparr>)
             = Inr (switch_to_warning_mode env first_warning True
                      (st\<lparr>message_queue := drop 5 (message_queue st), warning_buffer := wb1\<rparr>)) \<and>
           buffer (warning_buffer (snd (process_messages cfg env st)))
             = map (\<lambda>m. if oid m = oid first_warning then mark_displayed (time_time env) m else m)
                 (buffer wb1) \<and>
           ((\<forall>m\<in>set warning_messages. source m = source first_warning \<longrightarrow> m = first_warning) \<longrightarrow>
              mark_displayed (time_time env) first_warning
                \<in> set (buffer (warning_buffer (snd (process_messages cfg env st))))) \<and>
           calls (scrolling_text (snd (process_messages cfg env st)))
             = calls (scrolling_text st) @ [call_of first_warning True] \<and>
           current_text (scrolling_text (snd (process_messages cfg env st))) = text first_warning \<and>
           current_display_type (snd (process_messages cfg env st)) = Some ''warning''"
proof -
  have cap: "0 < max_size (warning_buffer st)"
    using room ne by (cases warning_messages) auto
  obtain results wb1 where
    b: "batch_replace_by_source (warning_buffer st) warning_messages = Inr (results, wb1)"
    using batch_total [OF cap] by blast
  obtain fw rest where
    srt: "sort_key (\<lambda>m. get_source_priority (source m)) warning_messages = fw # rest"
    using ne by (metis length_sort length_0_conv neq_Nil_conv)
  note hd = sort_key_head [OF srt]
  note first = sort_key_first [OF srt]
  note t = tick_forced [OF mode ws b srt]
  have nw: "\<forall>m\<in>set warning_messages. message_type m \<noteq> ''weather''"
    using ws by auto
  have latest: "\<forall>m\<in>set warning_messages.
                  \<exists>k\<in>set (buffer wb1). k \<in> set warning_messages \<and> source k = source m \<and>
                     \<not> float_gt (timestamp m) (timestamp k)"
    using batch_latest [OF b room nw] by blast
  have ops: "one_per_source (warning_buffer st) \<longrightarrow> one_per_source wb1"
    using batch_Inr [OF b] by simp
  have own: "mark_displayed (time_time env) fw
               \<in> set (buffer (warning_buffer (snd (process_messages cfg env st))))"
    if "\<forall>m\<in>set warning_messages. source m = source fw \<longrightarrow> m = fw"
  proof -
    from latest hd obtain k where "k \<in> set (buffer wb1)" "k \<in> set warning_messages"
      "source k = source fw" by blast
    with that have "fw \<in> set (buffer wb1)" by auto
    then show ?thesis unfolding t(2) by force
  qed
  show ?thesis
    using hd first b latest ops own t
    by (intro exI [of _ fw] exI [of _ results] exI [of _ wb1]) simp
qed

text \<open>
  Scenario A: with a report of cenc mid-scroll and warnings of jma and cenc queued, the
  tick shows the warning of jma with \<open>force=True\<close>, and that warning is in the warning
  buffer with its first display at second 120.
\<close>

theorem C1_forced_interruption_witness:
  "calls (scrolling_text (snd (process_messages cfg0 (env_at 120) st_report_scrolling)))
     = [call_of w_jma True] \<and>
   current_text (scrolling_text (snd (process_messages cfg0 (env_at 120) st_report_scrolling)))
     = text w_jma \<and>
   current_display_type (snd (process_messages cfg0 (env_at 120) st_report_scrolling))
     = Some ''warning'' \<and>
   mark_displayed 120 w_jma
     \<in> set (buffer (warning_buffer (snd (process_messages cfg0 (env_at 120) st_report_scrolling))))"
proof -
  have h: "current_display_type st_report_scrolling = Some ''report''
             \<or> current_display_type st_report_scrolling = None"
    "[w_jma, w_cenc] = filter (\<lambda>m. message_type m = ''warning'')
                          (take 5 (message_queue st_report_scrolling))"
    "[w_jma, w_cenc] \<noteq> []"
    "int (length (buffer (warning_buffer st_report_scrolling))) + int (length [w_jma, w_cenc])
       \<le> max_size (warning_buffer st_report_scrolling)"
    by (simp_all add: st_report_scrolling_def MainWindow_init_def MessageBuffer_init_def
          w_jma_def w_cenc_def new_item_def)
  have c: "calls (scrolling_text st_report_scrolling) = []"
    by (simp add: st_report_scrolling_def MainWindow_init_def)
  have p: "get_source_priority (source w_jma) = 0" "get_source_priority (source w_cenc) = 2"
    "source w_jma \<noteq> source w_cenc"
    by (simp_all add: w_jma_def w_cenc_def new_item_def)
  from C1_forced_interruption [OF h, of "env_at 120" cfg0]
  obtain fw where fw: "fw \<in> set [w_jma, w_cenc]"
    "\<forall>m\<in>set [w_jma, w_cenc]. get_source_priority (source fw) \<le> get_source_priority (source m)"
    "(\<forall>m\<in>set [w_jma, w_cenc]. source m = source fw \<longrightarrow> m = fw) \<longrightarrow>
       mark_displayed (time_time (env_at 120)) fw
         \<in> set (buffer (warning_buffer (snd (process_messages cfg0 (env_at 120) st_report_scrolling))))"
    "calls (scrolling_text (snd (process_messages cfg0 (env_at 120) st_report_scrolling)))
       = calls (scrolling_text st_report_scrolling) @ [call_of fw True]"
    "current_text (scrolling_text (snd (process_messages cfg0 (env_at 120) st_report_scrolling)))
       = text fw"
    "current_display_type (snd (process_messages cfg0 (env_at 120) st_report_scrolling))
       = Some ''warning''"
    by blast
  from fw(1,2) p have e: "fw = w_jma" by auto
  have "time_time (env_at 120) = 120" by (simp add: env_at_def)
  with fw(3) e p(3) have
    "mark_displayed 120 w_jma
       \<in> set (buffer (warning_buffer (snd (process_messages cfg0 (env_at 120) st_report_scrolling))))"
    by auto
  with fw(4,5,6) c e show ?thesis by simp
qed

lemma two_jma_batch:
  "\<exists>results wb1.
     batch_replace_by_source (warning_buffer st_two_jma) [w_jma, w_jma_2] = Inr (results, wb1) \<and>
     buffer wb1 = [w_jma_2]"
  by (simp add: batch_replace_by_source_def unique_messages_def source_to_latest_msg_def
        latest_step_def float_gt_def brs_step_def evict_if_full_def
        append_new_def sort_if_priority_def sort_by_priority_def Let_def sort_key_of_def
        st_two_jma_def st_report_scrolling_def MainWindow_init_def MessageBuffer_init_def
        w_jma_def w_jma_2_def new_item_def)

text \<open>
  Claim C1 as the specification words it fails on two warnings of jma in one tick: the
  buffer keeps the later one only, and the forced call shows the earlier one, which is
  not in the buffer.
\<close>

theorem C1_same_source_counterexample:
  "calls (scrolling_text (snd (process_messages cfg0 (env_at 120) st_two_jma)))
     = [call_of w_jma True] \<and>
   buffer (warning_buffer (snd (process_messages cfg0 (env_at 120) st_two_jma))) = [w_jma_2] \<and>
   w_jma \<noteq> w_jma_2"
proof -
  obtain results wb1 where
    b: "batch_replace_by_source (warning_buffer st_two_jma) [w_jma, w_jma_2] = Inr (results, wb1)"
    and wb1: "buffer wb1 = [w_jma_2]"
    using two_jma_batch by blast
  have mode: "current_display_type st_two_jma = Some ''report''
                \<or> current_display_type st_two_jma = None"
    and ws: "[w_jma, w_jma_2] = filter (\<lambda>m. message_type m = ''warning'')
                                  (take 5 (message_queue st_two_jma))"
    and c: "calls (scrolling_text st_two_jma) = []"
    by (simp_all add: st_two_jma_def st_report_scrolling_def MainWindow_init_def
          w_jma_def w_jma_2_def new_item_def)
  have srt: "sort_key (\<lambda>m. get_source_priority (source m)) [w_jma, w_jma_2] = [w_jma, w_jma_2]"
    by (simp add: w_jma_def w_jma_2_def new_item_def)
  have o: "oid w_jma_2 \<noteq> oid w_jma" "w_jma \<noteq> w_jma_2"
    by (simp_all add: w_jma_def w_jma_2_def new_item_def)
  note t = tick_forced [OF mode ws b srt]
  show ?thesis
    unfolding t(2) t(3) wb1 c using o by simp
qed

subsection \<open>Cancellation\<close>


lemma set_buffer_get_next [simp]: "set (buffer (snd (get_next b))) = set (buffer b)"
  by (simp add: get_next_def get_next_by_priority_def Let_def buffer_sort_by_priority)


lemma mset_buffer_get_next [simp]: "mset (buffer (snd (get_next b))) = mset (buffer b)"
  by (simp add: get_next_def get_next_by_priority_def Let_def buffer_sort_by_priority)

lemma show_cancellation_notice_fields [simp]:
  "scrolling_text (show_cancellation_notice cfg s c st)
     = (scrolling_text st)\<lparr>is_scrolling := True, current_text := uc_text (notice_call cfg s c),
          current_image_path := None, current_message_type := Some ''warning'',
          current_parsed_data := None,
          calls := calls (scrolling_text st) @ [notice_call cfg s c]\<rparr>"
  "warning_buffer (show_cancellation_notice cfg s c st) = warning_buffer st"
  "report_buffer (show_cancellation_notice cfg s c st) = report_buffer st"
  "message_queue (show_cancellation_notice cfg s c st) = message_queue st"
  "current_display_type (show_cancellation_notice cfg s c st) = Some ''warning''"
  "switching_to_report (show_cancellation_notice cfg s c st) = switching_to_report st"
  by (simp_all add: show_cancellation_notice_def Let_def update_text_def notice_call_def)

lemma demote_scrolling:
  "is_scrolling (scrolling_text st) \<Longrightarrow> current_display_type st = Some ''warning''
     \<Longrightarrow> demote_if_possible st = st"
  by (simp add: demote_if_possible_def switch_to_report_mode_def)

lemma cancel_jma_displayed:
  assumes cur: "current_displaying_message st = Some cur"
    and src: "source cur = ''jma''" and eid: "event_id cur = E"
  shows "mset (buffer (warning_buffer (cancel_jma cfg env ''jma'' E st)))
           = mset (filter (\<lambda>msg. \<not> (source msg = ''jma'' \<and> event_id msg = E))
                     (buffer (warning_buffer st)))"
    and "report_buffer (cancel_jma cfg env ''jma'' E st) = report_buffer st"
    and "message_queue (cancel_jma cfg env ''jma'' E st) = message_queue st"
    and "calls (scrolling_text (cancel_jma cfg env ''jma'' E st))
           = calls (scrolling_text st) @ [notice_call cfg ''jma'' (Some cur)]"
    and "current_text (scrolling_text (cancel_jma cfg env ''jma'' E st))
           = uc_text (notice_call cfg ''jma'' (Some cur))"
proof -
  define kept where
    "kept = filter (\<lambda>msg. \<not> (source msg = ''jma'' \<and> event_id msg = E)) (buffer (warning_buffer st))"
  define st1 where
    "st1 = st\<lparr>warning_buffer := (warning_buffer st)
             \<lparr>buffer := kept,
              current_index := (if current_index (warning_buffer st) \<ge> int (length kept)
                                then 0 else current_index (warning_buffer st))\<rparr>\<rparr>"
  define st2 where
    "st2 = show_cancellation_notice cfg ''jma'' (current_displaying_message st1) st1"
  have will: "(case current_displaying_message st of
                 Some m \<Rightarrow> source m = ''jma'' \<and> event_id m = E | None \<Rightarrow> False) = True"
    using cur src eid by simp
  have e: "cancel_jma cfg env ''jma'' E st =
      (if size_of (warning_buffer st2) = 0 then demote_if_possible st2
       else (let (next_msg, wb2) = get_next (warning_buffer st2);
                 st3 = st2\<lparr>warning_buffer := wb2\<rparr>
             in case next_msg of
                  None \<Rightarrow> st3
                | Some nm \<Rightarrow>
                    if \<not> is_scrolling (scrolling_text st3)
                    then switch_to_warning_mode env nm False st3 else st3))"
    unfolding cancel_jma_def Let_def st2_def st1_def kept_def
    by (simp only: will if_True)
  have c1: "current_displaying_message st1 = Some cur"
    using cur by (simp add: st1_def)
  have f2: "is_scrolling (scrolling_text st2)" "current_display_type st2 = Some ''warning''"
    "buffer (warning_buffer st2) = kept" "report_buffer st2 = report_buffer st"
    "message_queue st2 = message_queue st"
    "calls (scrolling_text st2) = calls (scrolling_text st) @ [notice_call cfg ''jma'' (Some cur)]"
    "current_text (scrolling_text st2) = uc_text (notice_call cfg ''jma'' (Some cur))"
    by (simp_all add: st2_def c1) (simp_all add: st1_def)
  have fin: "cancel_jma cfg env ''jma'' E st = st2 \<or>
             cancel_jma cfg env ''jma'' E st = st2\<lparr>warning_buffer := snd (get_next (warning_buffer st2))\<rparr>"
  proof (cases "size_of (warning_buffer st2) = 0")
    case True
    then show ?thesis using e demote_scrolling [OF f2(1,2)] by simp
  next
    case False
    obtain next_msg wb2 where g: "get_next (warning_buffer st2) = (next_msg, wb2)"
      by (cases "get_next (warning_buffer st2)")
    have "cancel_jma cfg env ''jma'' E st = st2\<lparr>warning_buffer := wb2\<rparr>"
      using e False g f2(1) by (simp add: Let_def split: option.splits)
    then show ?thesis using g by simp
  qed
  have m: "mset (buffer (snd (get_next (warning_buffer st2)))) = mset kept"
    using mset_buffer_get_next [of "warning_buffer st2"] f2(3) by simp
  show "mset (buffer (warning_buffer (cancel_jma cfg env ''jma'' E st)))
           = mset (filter (\<lambda>msg. \<not> (source msg = ''jma'' \<and> event_id msg = E))
                     (buffer (warning_buffer st)))"
    using fin f2(3) m unfolding kept_def [symmetric] by auto
  show "report_buffer (cancel_jma cfg env ''jma'' E st) = report_buffer st"
    using fin f2(4) by auto
  show "message_queue (cancel_jma cfg env ''jma'' E st) = message_queue st"
    using fin f2(5) by auto
  show "calls (scrolling_text (cancel_jma cfg env ''jma'' E st))
           = calls (scrolling_text st) @ [notice_call cfg ''jma'' (Some cur)]"
    using fin f2(6) by auto
  show "current_text (scrolling_text (cancel_jma cfg env ''jma'' E st))
           = uc_text (notice_call cfg ''jma'' (Some cur))"
    using fin f2(7) by auto
qed


lemma mset_single: "mset xs = {#x#} \<Longrightarrow> xs = [x]"
  by (metis mset_single_iff_right mset_zero_iff_right add_mset_eq_single mset.simps(2) list.exhaust)


lemma parse_T0: "parse_display_time (env_at now) ''T0'' = Some 0"
  by (simp add: parse_display_time_def env_at_def strip_str_def py_isspace_def in_ranges_def)


subsection \<open>Stale warnings at admission\<close>

lemma cancel_jma_frame:
  "report_buffer (cancel_jma cfg env s E st) = report_buffer st \<and>
   message_queue (cancel_jma cfg env s E st) = message_queue st \<and>
   mset (buffer (warning_buffer (cancel_jma cfg env s E st))) \<subseteq># mset (buffer (warning_buffer st))"
proof -
  define kept where
    "kept = filter (\<lambda>msg. \<not> (source msg = ''jma'' \<and> event_id msg = E)) (buffer (warning_buffer st))"
  define st1 where
    "st1 = st\<lparr>warning_buffer := (warning_buffer st)
             \<lparr>buffer := kept,
              current_index := (if current_index (warning_buffer st) \<ge> int (length kept)
                                then 0 else current_index (warning_buffer st))\<rparr>\<rparr>"
  define st2 where
    "st2 = show_cancellation_notice cfg s (current_displaying_message st1) st1"
  have k: "mset kept \<subseteq># mset (buffer (warning_buffer st))"
    by (simp add: kept_def)
  have e: "cancel_jma cfg env s E st =
      (if (case current_displaying_message st of
             Some m \<Rightarrow> source m = ''jma'' \<and> event_id m = E | None \<Rightarrow> False)
       then (if size_of (warning_buffer st2) = 0 then demote_if_possible st2
             else (let (next_msg, wb2) = get_next (warning_buffer st2);
                       st3 = st2\<lparr>warning_buffer := wb2\<rparr>
                   in case next_msg of
                        None \<Rightarrow> st3
                      | Some nm \<Rightarrow>
                          if \<not> is_scrolling (scrolling_text st3)
                          then switch_to_warning_mode env nm False st3 else st3))
       else st1)"
    unfolding cancel_jma_def Let_def st2_def st1_def kept_def ..
  have f2: "is_scrolling (scrolling_text st2)" "current_display_type st2 = Some ''warning''"
    "buffer (warning_buffer st2) = kept" "report_buffer st2 = report_buffer st"
    "message_queue st2 = message_queue st"
    by (simp_all add: st2_def) (simp_all add: st1_def)
  have f1: "buffer (warning_buffer st1) = kept" "report_buffer st1 = report_buffer st"
    "message_queue st1 = message_queue st"
    by (simp_all add: st1_def)
  have "cancel_jma cfg env s E st = st1 \<or> cancel_jma cfg env s E st = st2 \<or>
        cancel_jma cfg env s E st = st2\<lparr>warning_buffer := snd (get_next (warning_buffer st2))\<rparr>"
  proof (cases "case current_displaying_message st of
                  Some m \<Rightarrow> source m = ''jma'' \<and> event_id m = E | None \<Rightarrow> False")
    case False
    then show ?thesis using e by simp
  next
    case will: True
    show ?thesis
    proof (cases "size_of (warning_buffer st2) = 0")
      case True
      then show ?thesis using e will demote_scrolling [OF f2(1,2)] by simp
    next
      case False
      obtain next_msg wb2 where g: "get_next (warning_buffer st2) = (next_msg, wb2)"
        by (cases "get_next (warning_buffer st2)")
      have "cancel_jma cfg env s E st = st2\<lparr>warning_buffer := wb2\<rparr>"
        using e will False g f2(1) by (simp add: Let_def split: option.splits)
      then show ?thesis using g by simp
    qed
  qed
  moreover have "mset (buffer (snd (get_next (warning_buffer st2)))) = mset kept"
    using mset_buffer_get_next [of "warning_buffer st2"] f2(3) by simp
  ultimately show ?thesis
    using k f1 f2 by auto
qed

text \<open>
  Claim C9, as the code has it. A warning event whose shock time parses and is more
  than \<open>warning_shock_validity_seconds\<close> older than the current time in the display
  timezone fails the admission check; it is not queued, the report buffer is unchanged
  and nothing enters the warning buffer. Unless the event is a cancel report of jma
  with an event id (which removes entries), the whole state is unchanged.
\<close>

theorem C9_stale_warning_not_admitted:
  assumes "ev_type data = ''warning''"
    and "parse_display_time env (ev_shock_time data) = Some shock"
    and "now_in_display_tz env - shock > of_int (warning_shock_validity_seconds cfg)"
  shows "\<not> is_warning_valid cfg env data \<and>
         message_queue (on_message_received cfg env source_name data st) = message_queue st \<and>
         report_buffer (on_message_received cfg env source_name data st) = report_buffer st \<and>
         mset (buffer (warning_buffer (on_message_received cfg env source_name data st)))
           \<subseteq># mset (buffer (warning_buffer st)) \<and>
         (\<not> (source_name = ''jma'' \<and> ev_cancel data \<and> ev_event_id data \<noteq> [])
            \<longrightarrow> on_message_received cfg env source_name data st = st)"
proof -
  have ne: "ev_shock_time data \<noteq> []"
    using assms(2) by (auto simp: parse_display_time_def)
  have nv: "\<not> is_warning_valid cfg env data"
    using assms(2,3) ne by (simp add: is_warning_valid_def)
  show ?thesis
  proof (cases "source_name = ''jma'' \<and> ev_cancel data \<and> ev_event_id data \<noteq> []")
    case True
    then have "on_message_received cfg env source_name data st
                 = cancel_jma cfg env source_name (ev_event_id data) st"
      using assms(1) by (simp add: on_message_received_def)
    then show ?thesis
      using nv True cancel_jma_frame [of cfg env source_name "ev_event_id data" st] by simp
  next
    case False
    then have "on_message_received cfg env source_name data st = st"
      using assms(1) nv by (auto simp: on_message_received_def Let_def)
    then show ?thesis using nv by simp
  qed
qed

text \<open>
  Scenario C: a warning of sa with a shock time 400 seconds old and a validity of 300
  seconds leaves the arbiter as it was.
\<close>

theorem C9_stale_warning_not_admitted_witness:
  "\<not> is_warning_valid cfg0 (env_at 400) ev_sa \<and>
   on_message_received cfg0 (env_at 400) ''sa'' ev_sa MainWindow_init = MainWindow_init"
proof -
  have h: "ev_type ev_sa = ''warning''"
    "parse_display_time (env_at 400) (ev_shock_time ev_sa) = Some 0"
    "now_in_display_tz (env_at 400) - 0 > of_int (warning_shock_validity_seconds cfg0)"
    by (simp_all add: ev_sa_def parse_T0) (simp add: env_at_def cfg0_def)
  show ?thesis
    using C9_stale_warning_not_admitted [OF h, of "''sa''" MainWindow_init]
    by simp
qed

text \<open>
  A cancel report of jma whose shock time is 400 seconds old still removes the entry of
  its event from the warning buffer.
\<close>

theorem C9_stale_cancel_counterexample:
  "ev_type ev_jma_cancel = ''warning'' \<and>
   parse_display_time (env_at 400) (ev_shock_time ev_jma_cancel) = Some 0 \<and>
   now_in_display_tz (env_at 400) - 0 > of_int (warning_shock_validity_seconds cfg0) \<and>
   buffer (warning_buffer st_jma_shown) = [w_jma, shown_warning] \<and>
   buffer (warning_buffer (on_message_received cfg0 (env_at 400) ''jma'' ev_jma_cancel st_jma_shown))
     = [shown_warning]"
proof -
  have r: "on_message_received cfg0 (env_at 400) ''jma'' ev_jma_cancel st_jma_shown
             = cancel_jma cfg0 (env_at 400) ''jma'' ''J1'' st_jma_shown"
    by (simp add: on_message_received_def ev_jma_cancel_def)
  have h: "current_displaying_message st_jma_shown = Some w_jma"
    "source w_jma = ''jma''" "event_id w_jma = ''J1''"
    by (simp_all add: st_jma_shown_def w_jma_def new_item_def)
  have b: "buffer (warning_buffer st_jma_shown) = [w_jma, shown_warning]"
    by (simp add: st_jma_shown_def MessageBuffer_init_def)
  have f: "filter (\<lambda>msg. \<not> (source msg = ''jma'' \<and> event_id msg = ''J1''))
             [w_jma, shown_warning] = [shown_warning]"
    by (simp add: w_jma_def shown_warning_def new_item_def)
  have "mset (buffer (warning_buffer (cancel_jma cfg0 (env_at 400) ''jma'' ''J1'' st_jma_shown)))
          = {#shown_warning#}"
    using cancel_jma_displayed(1) [OF h, of cfg0 "env_at 400"] unfolding b f by simp
  then have "buffer (warning_buffer (cancel_jma cfg0 (env_at 400) ''jma'' ''J1'' st_jma_shown))
               = [shown_warning]"
    by (rule mset_single)
  then show ?thesis
    unfolding r using b
    by (simp add: ev_jma_cancel_def parse_T0) (simp add: env_at_def cfg0_def)
qed

subsection \<open>Overflow of a priority buffer\<close>

lemma unique_single: "unique_messages [m] = [m]"
  by (simp add: unique_messages_def source_to_latest_msg_def latest_step_def)

lemma arrive1:
  "batch_replace_by_source (MessageBuffer_init 2 True) [rep_c] = Inr ([False], one_report)"
  by (simp add: batch_replace_by_source_def unique_single brs_step_def evict_if_full_def
        append_new_def sort_if_priority_def sort_by_priority_def Let_def MessageBuffer_init_def
        one_report_def rep_c_def new_item_def)

lemma arrive2:
  "batch_replace_by_source one_report [rep_w] = Inr ([False], full_buffer)"
  by (simp add: batch_replace_by_source_def unique_single brs_step_def evict_if_full_def
        append_new_def sort_if_priority_def sort_by_priority_def Let_def sort_key_of_def
        one_report_def full_buffer_def rep_c_def rep_w_def new_item_def)
     (simp add: numeral_2_eq_2)

lemma arrive3:
  "batch_replace_by_source full_buffer [rep_u] = Inr ([False], after_overflow)"
  by (simp add: batch_replace_by_source_def unique_single brs_step_def evict_if_full_def
        append_new_def sort_if_priority_def sort_by_priority_def Let_def sort_key_of_def
        full_buffer_def after_overflow_def rep_c_def rep_w_def rep_u_def new_item_def)

lemma arrive3_single:
  "replace_by_source full_buffer rep_u = Inr (False, after_overflow)"
  "add full_buffer rep_u = Inr after_overflow"
  by (simp_all add: replace_by_source_def replace_where_def add_def evict_if_full_def
        append_new_def sort_if_priority_def sort_by_priority_def Let_def sort_key_of_def
        full_buffer_def after_overflow_def rep_c_def rep_w_def rep_u_def new_item_def)

text \<open>
  Claim C4, evaluated on the code. In a buffer of capacity 2 the report of cenc arrives
  first (token 1) and the weather alert second (token 2); sorting puts the weather
  alert at index 0. The report of usgs then evicts the weather alert, the newest
  arrival and the entry of highest priority, and the oldest arrival stays.
\<close>

theorem C4_overflow_evicts_index_0:
  "batch_replace_by_source (MessageBuffer_init 2 True) [rep_c] = Inr ([False], one_report) \<and>
   batch_replace_by_source one_report [rep_w] = Inr ([False], full_buffer) \<and>
   buffer full_buffer = [rep_w, rep_c] \<and>
   message_add_order full_buffer (oid rep_c) = Some 1 \<and>
   message_add_order full_buffer (oid rep_w) = Some 2 \<and>
   batch_replace_by_source full_buffer [rep_u] = Inr ([False], after_overflow) \<and>
   replace_by_source full_buffer rep_u = Inr (False, after_overflow) \<and>
   add full_buffer rep_u = Inr after_overflow \<and>
   buffer after_overflow = [rep_c, rep_u]"
  using arrive1 arrive2 arrive3 arrive3_single
  by (simp add: full_buffer_def after_overflow_def rep_c_def rep_w_def new_item_def)

subsection \<open>Demotion to report mode\<close>

lemma expired: "\<not> is_warning_still_valid cfg0 (env_at 360) shown_warning"
  by (simp add: is_warning_still_valid_def shown_warning_def new_item_def cfg0_def env_at_def)

lemma sweep1:
  "snd (clean_expired_warnings cfg0 (env_at 360)
          (st_expiring\<lparr>scrolling_text := (scrolling_text st_expiring)\<lparr>is_scrolling := False\<rparr>\<rparr>))
     = st_expiring\<lparr>scrolling_text := (scrolling_text st_expiring)\<lparr>is_scrolling := False\<rparr>,
         warning_buffer := (warning_buffer st_expiring)\<lparr>buffer := [], current_index := 0\<rparr>\<rparr>"
  using expired
  by (simp add: clean_expired_warnings_def Let_def st_expiring_def MessageBuffer_init_def MainWindow_init_def)

lemma demoted:
  "st_demoted = st_expiring
     \<lparr>warning_buffer := (warning_buffer st_expiring)\<lparr>buffer := [], current_index := 0\<rparr>,
      report_buffer := (rr_buffer (Some 2))\<lparr>current_index := 0\<rparr>,
      scrolling_text := (scrolling_text st_expiring)
        \<lparr>is_scrolling := True, current_text := text rep_w,
         current_image_path := None, current_message_type := Some ''weather'',
         current_parsed_data := None, calls := [call_of rep_w True]\<rparr>,
      current_display_type := Some ''report'',
      switching_to_report := False,
      current_displaying_message := Some rep_w,
      pending_update_message := None\<rparr>"
  unfolding st_demoted_def scroll_completed_def on_scroll_completed_def Let_def sweep1
  apply (simp add: size_of_def st_expiring_def MessageBuffer_init_def MainWindow_init_def)
  apply (simp add: demote_if_possible_def size_of_def switch_to_report_mode_def rr_buffer_def
       do_switch_to_report_def update_text_def call_of_def Let_def)
  apply (simp add: rep_w_def new_item_def)
  done


lemma rb_demoted: "report_buffer st_demoted = (rr_buffer (Some 2))\<lparr>current_index := 0\<rparr>"
  by (simp add: demoted)

lemma sorted_demoted:
  "sort_key (sort_key_of ((rr_buffer (Some 2))\<lparr>current_index := 0\<rparr>))
     (buffer ((rr_buffer (Some 2))\<lparr>current_index := 0\<rparr>)) = [rep_w, rep_c, rep_u]"
  by (simp add: rr_defs sort_key_of_def)

lemma start_demoted: "start_index ((rr_buffer (Some 2))\<lparr>current_index := 0\<rparr>) = 2"
  unfolding start_index_def Let_def sorted_demoted
  by (simp add: rr_defs)

lemma next_demoted: "fst (get_next (report_buffer st_demoted)) = Some rep_u"
  unfolding rb_demoted
  using get_next_priority(1) [of "(rr_buffer (Some 2))\<lparr>current_index := 0\<rparr>"]
  unfolding sorted_demoted start_demoted
  by (simp add: rr_buffer_def)

lemma second_scroll:
  "map uc_text (calls (scrolling_text (scroll_completed cfg0 (env_at 400) st_demoted)))
     = [text rep_w, text rep_u]"
proof -
  obtain rb1 where g: "get_next (report_buffer st_demoted) = (Some rep_u, rb1)"
    using next_demoted by (cases "get_next (report_buffer st_demoted)") simp
  let ?st = "st_demoted\<lparr>scrolling_text := (scrolling_text st_demoted)\<lparr>is_scrolling := False\<rparr>\<rparr>"
  have f: "size_of (warning_buffer ?st) = 0" "size_of (report_buffer ?st) > 0"
    "pending_update_message ?st = None" "report_buffer ?st = report_buffer st_demoted"
    "calls (scrolling_text ?st) = [call_of rep_w True]" "\<not> is_scrolling (scrolling_text ?st)"
    by (simp_all add: demoted size_of_def)
       (simp_all add: rr_buffer_def st_expiring_def MainWindow_init_def)
  have s: "calls (scrolling_text (show_next_report ?st)) = [call_of rep_w True, call_of rep_u False]"
    "current_display_type (show_next_report ?st) = Some ''report''"
    using f g by (simp_all add: show_next_report_def Let_def update_text_def)
  have t: "scroll_tail (show_next_report ?st) = show_next_report ?st"
    using s(2) by (simp add: scroll_tail_def)
  show ?thesis
    unfolding scroll_completed_def on_scroll_completed_def
    using f(1,2) by (simp add: t s call_of_def)
qed

text \<open>
  Claim C8, evaluated on the code. The warning expires at the end of its scroll and
  the arbiter demotes: it shows the entry at index 0 of the report buffer (the weather
  alert) and sets \<open>current_index\<close> to 0, but the buffer still records cenc as the
  displayed message. The next \<open>get_next\<close>, at the end of that scroll, therefore
  returns usgs, the entry after cenc, and not cenc, the entry after index 0.
\<close>

theorem C8_demotion_keeps_round_robin_position:
  "buffer (report_buffer st_expiring) = [rep_w, rep_c, rep_u] \<and>
   current_displaying_msg_id (report_buffer st_expiring) = Some (oid rep_c) \<and>
   current_display_type st_demoted = Some ''report'' \<and>
   current_text (scrolling_text st_demoted) = text rep_w \<and>
   current_index (report_buffer st_demoted) = 0 \<and>
   current_displaying_msg_id (report_buffer st_demoted) = Some (oid rep_c) \<and>
   fst (get_next (report_buffer st_demoted)) = Some rep_u \<and>
   map uc_text (calls (scrolling_text (scroll_completed cfg0 (env_at 400) st_demoted)))
     = [text rep_w, text rep_u]"
  using next_demoted second_scroll
  by (simp add: demoted) (simp add: st_expiring_def rr_defs)

end
